theory Spec2Isabelle
  imports Complex_Main "HOL-Library.Multiset"
begin

section \<open>Python strings\<close>

text \<open>
  A Python \<open>str\<close> is a sequence of Unicode code points. It is modelled as a list of
  natural numbers, one per code point, so that \<open>len\<close>, the regular-expression dot and
  character repetition count what Python counts. \<open>str\<close> turns a literal into that form.
\<close>

type_synonym pystr = "nat list"

definition str :: "string \<Rightarrow> pystr" where
  "str s = map of_char s"

text \<open>
  \<open>str.isspace\<close> on one code point; the \<open>\<bslash>s\<close> of the \<open>re\<close> module on a \<open>str\<close> pattern
  matches the same code points.
\<close>

definition is_space :: "nat \<Rightarrow> bool" where
  "is_space c \<longleftrightarrow>
     (9 \<le> c \<and> c \<le> 13) \<or> (28 \<le> c \<and> c \<le> 32) \<or> c = 133 \<or> c = 160 \<or> c = 5760 \<or>
     (8192 \<le> c \<and> c \<le> 8202) \<or> c = 8232 \<or> c = 8233 \<or> c = 8239 \<or> c = 8287 \<or> c = 12288"

text \<open>The character class \<open>[a-zA-Z0-9_]\<close>.\<close>

definition is_word :: "nat \<Rightarrow> bool" where
  "is_word c \<longleftrightarrow> (48 \<le> c \<and> c \<le> 57) \<or> (65 \<le> c \<and> c \<le> 90) \<or> c = 95 \<or> (97 \<le> c \<and> c \<le> 122)"

text \<open>\<open>s.startswith(p)\<close>, returning what follows the prefix.\<close>

fun strip_prefix :: "'a list \<Rightarrow> 'a list \<Rightarrow> 'a list option" where
  "strip_prefix [] s = Some s"
| "strip_prefix (p # ps) [] = None"
| "strip_prefix (p # ps) (c # cs) = (if p = c then strip_prefix ps cs else None)"

text \<open>
  \<open>s.replace(old, new)\<close>: the occurrences of \<open>old\<close> are found from the left and do not
  overlap. For an empty \<open>old\<close> Python puts \<open>new\<close> before every character and at the end.
\<close>

function py_replace :: "'a list \<Rightarrow> 'a list \<Rightarrow> 'a list \<Rightarrow> 'a list" where
  "py_replace old new [] = (if old = [] then new else [])"
| "py_replace old new (c # cs) =
     (if old = [] then new @ c # py_replace old new cs
      else (case strip_prefix old (c # cs) of
              Some rest \<Rightarrow> new @ py_replace old new rest
            | None \<Rightarrow> c # py_replace old new cs))"
  by pat_completeness auto

lemma strip_prefix_length: "strip_prefix p s = Some r \<Longrightarrow> length s = length p + length r"
  by (induction p s rule: strip_prefix.induct) (auto split: if_splits)

termination py_replace
  by (relation "measure (\<lambda>(old, new, s). length s)") (auto dest: strip_prefix_length)

text \<open>\<open>s.strip()\<close>: leading and trailing whitespace removed.\<close>

definition py_strip :: "pystr \<Rightarrow> pystr" where
  "py_strip s = rev (dropWhile is_space (rev (dropWhile is_space s)))"

section \<open>Regular-expression substitution\<close>

text \<open>
  \<open>re.sub(pattern, repl, text)\<close> scans the text from the left. At each position it tries
  the pattern; on a match it emits the replacement and goes on after the match, otherwise it
  copies one character and moves one position on. A rule stands for a pattern together with
  its replacement: applied to the text that starts at a position, it returns the replacement
  and the text after the match, or \<open>None\<close> when the pattern does not match there. All the
  patterns of this program match at least one character.
\<close>

type_synonym rule = "pystr \<Rightarrow> (pystr \<times> pystr) option"

fun re_sub :: "rule \<Rightarrow> pystr \<Rightarrow> pystr" where
  "re_sub r [] = []"
| "re_sub r (c # cs) =
     (case r (c # cs) of
        Some (out, rest) \<Rightarrow>
          if length rest \<le> length cs then out @ re_sub r rest else c # re_sub r cs
      | None \<Rightarrow> c # re_sub r cs)"

text \<open>
  \<open>:[a-zA-Z0-9_]+:\<close> replaced by the empty string. The greedy run of word characters must be
  followed by a colon; giving characters back cannot help, as a colon is not a word character.
\<close>

definition emote_rule :: rule where
  "emote_rule s =
     (case s of
        [] \<Rightarrow> None
      | c # cs \<Rightarrow>
          (let w = takeWhile is_word cs; r = dropWhile is_word cs in
           if c = 58 \<and> w \<noteq> [] \<and> r \<noteq> [] \<and> hd r = 58 then Some ([], tl r) else None))"

text \<open>
  \<open>https?://\<bslash>S+\<close> replaced by the empty string: \<open>http\<close>, an optional \<open>s\<close>, \<open>://\<close> and the
  longest non-empty run of characters that are not whitespace.
\<close>

definition url_rule :: rule where
  "url_rule s =
     (case strip_prefix (str ''http'') s of
        None \<Rightarrow> None
      | Some r1 \<Rightarrow>
          (case (case strip_prefix (str ''s://'') r1 of
                   Some r \<Rightarrow> Some r
                 | None \<Rightarrow> strip_prefix (str ''://'') r1) of
             None \<Rightarrow> None
           | Some r2 \<Rightarrow>
               if takeWhile (\<lambda>c. \<not> is_space c) r2 = [] then None
               else Some ([], dropWhile (\<lambda>c. \<not> is_space c) r2)))"

text \<open>\<open>\<bslash>s+\<close> replaced by one space.\<close>

definition space_rule :: rule where
  "space_rule s =
     (case s of
        [] \<Rightarrow> None
      | c # cs \<Rightarrow> if is_space c then Some ([32], dropWhile is_space cs) else None)"

text \<open>The class of special characters \<open><>{}[]|\<bslash>^~`\<close>, each replaced by the empty string.\<close>

definition is_special :: "nat \<Rightarrow> bool" where
  "is_special c \<longleftrightarrow> c \<in> set [60, 62, 123, 125, 91, 93, 124, 92, 94, 126, 96]"

definition special_rule :: rule where
  "special_rule s =
     (case s of
        [] \<Rightarrow> None
      | c # cs \<Rightarrow> if is_special c then Some ([], cs) else None)"

text \<open>
  \<open>(.)\<bslash>1{3,}\<close> replaced by \<open>\<bslash>1\<bslash>1\<close>: a character other than the newline followed by
  at least three more copies of itself, as many as there are.
\<close>

definition repeat_rule :: rule where
  "repeat_rule s =
     (case s of
        [] \<Rightarrow> None
      | c # cs \<Rightarrow>
          if c \<noteq> 10 \<and> 3 \<le> length (takeWhile (\<lambda>d. d = c) cs)
          then Some ([c, c], dropWhile (\<lambda>d. d = c) cs) else None)"

text \<open>\<open>EventProcessor._clean_text\<close>: the five substitutions in the order of the source.\<close>

definition clean_text :: "pystr \<Rightarrow> pystr" where
  "clean_text text0 =
     (let text1 = re_sub emote_rule text0;
          text2 = re_sub url_rule text1;
          text3 = py_strip (re_sub space_rule text2);
          text4 = re_sub special_rule text3;
          text5 = re_sub repeat_rule text4
      in text5)"

section \<open>Events and thresholds\<close>

datatype platform = TWITCH | YOUTUBE

datatype event_type =
    TWITCH_BITS | TWITCH_SUB_NEW | TWITCH_SUB_RESUB | TWITCH_GIFT_SINGLE | TWITCH_GIFT_MULTI
  | TWITCH_CHANNEL_POINTS | YOUTUBE_SUPERCHAT | YOUTUBE_SUPERSTICKER | YOUTUBE_MEMBERSHIP_NEW
  | YOUTUBE_MEMBERSHIP_MILESTONE

text \<open>
  The subclasses of \<open>StreamEvent\<close> with the fields the thresholds read. A \<open>float\<close> amount is
  modelled as a real number: the binary rounding of \<open>amount * 100\<close> is not modelled.
\<close>

datatype event_detail =
    PlainEvent
  | TwitchBitsEvent (bits_amount: int) (bits_message: pystr)
  | TwitchSubEvent (sub_tier: pystr) (sub_months: int) (sub_message: pystr) (is_resub: bool)
  | TwitchGiftSubEvent (gift_tier: pystr) (gift_count: int) (recipient: pystr)
  | TwitchChannelPointsEvent (reward_id: pystr) (reward_name: pystr) (cost: int) (user_input: pystr)
  | YouTubeSuperChatEvent (chat_amount: real) (chat_currency: pystr) (chat_message: pystr)
  | YouTubeSuperStickerEvent (sticker_amount: real) (sticker_currency: pystr) (sticker_id: pystr)
  | YouTubeMembershipEvent (level: pystr) (member_months: int) (is_milestone: bool)

record stream_event =
  event_id :: pystr
  event_platform :: platform
  event_kind :: event_type
  username :: pystr
  detail :: event_detail

record threshold_config =
  TWITCH_BITS_MINIMUM :: int
  TWITCH_GIFT_SUBS_MINIMUM :: int
  TWITCH_CHANNEL_POINTS_REWARDS :: "pystr list"
  YOUTUBE_SUPERCHAT_MINIMUM_CENTS :: int

text \<open>\<open>int(x)\<close> of a float: the fraction is dropped, towards zero.\<close>

definition py_int :: "real \<Rightarrow> int" where
  "py_int x = (if 0 \<le> x then \<lfloor>x\<rfloor> else \<lceil>x\<rceil>)"

text \<open>\<open>EventProcessor._meets_threshold\<close>, one case per \<open>isinstance\<close> test, in its order.\<close>

definition meets_threshold :: "threshold_config \<Rightarrow> stream_event \<Rightarrow> bool" where
  "meets_threshold config event =
     (case detail event of
        TwitchBitsEvent amount _ \<Rightarrow> amount \<ge> TWITCH_BITS_MINIMUM config
      | TwitchGiftSubEvent _ cnt _ \<Rightarrow> cnt \<ge> TWITCH_GIFT_SUBS_MINIMUM config
      | TwitchChannelPointsEvent rid _ _ _ \<Rightarrow>
          if TWITCH_CHANNEL_POINTS_REWARDS config \<noteq> []
          then rid \<in> set (TWITCH_CHANNEL_POINTS_REWARDS config) else True
      | YouTubeSuperChatEvent amount _ _ \<Rightarrow>
          py_int (amount * 100) \<ge> YOUTUBE_SUPERCHAT_MINIMUM_CENTS config
      | YouTubeSuperStickerEvent amount _ _ \<Rightarrow>
          py_int (amount * 100) \<ge> YOUTUBE_SUPERCHAT_MINIMUM_CENTS config
      | _ \<Rightarrow> True)"

text \<open>
  The threshold rule in the words of the specification, for comparison:
  \<open>round(amount * 100) \<ge> min_cents\<close>.
\<close>

definition spec_threshold :: "real \<Rightarrow> int \<Rightarrow> bool" where
  "spec_threshold amount min_cents \<longleftrightarrow> round (amount * 100) \<ge> min_cents"

text \<open>The amount of a Super Chat or Super Sticker event.\<close>

definition paid_amount :: "stream_event \<Rightarrow> real option" where
  "paid_amount event =
     (case detail event of
        YouTubeSuperChatEvent amount _ _ \<Rightarrow> Some amount
      | YouTubeSuperStickerEvent amount _ _ \<Rightarrow> Some amount
      | _ \<Rightarrow> None)"

section \<open>Messages and the heap of the queue\<close>

datatype py_error = IndexError | KeyError | ValueError | RuntimeError

text \<open>What a call did: it returned a value or raised an exception.\<close>

datatype 'a result = Returned 'a | Raised py_error

record tts_message =
  msg_id :: pystr
  msg_text :: pystr
  display_text :: pystr
  priority :: int
  event :: "stream_event option"
  audio_path :: "pystr option"
  created_at :: real

text \<open>
  \<open>PriorityItem\<close>: the priority is negated, and only the priority takes part in comparisons
  (the timestamp and the message are declared with \<open>compare=False\<close>).
\<close>

record priority_item =
  item_priority :: int
  item_timestamp :: real
  item_message :: tts_message

definition PriorityItem :: "tts_message \<Rightarrow> priority_item" where
  "PriorityItem message =
     \<lparr>item_priority = - priority message, item_timestamp = created_at message,
      item_message = message\<rparr>"

definition item_lt :: "priority_item \<Rightarrow> priority_item \<Rightarrow> bool" where
  "item_lt a b \<longleftrightarrow> item_priority a < item_priority b"

text \<open>
  The functions of Python's \<open>heapq\<close> that the queue calls, on a list used as an array.
  \<open>_siftdown\<close> moves the item at \<open>pos\<close> towards the root while it is smaller than its parent.
\<close>

function siftdown_loop ::
  "priority_item list \<Rightarrow> nat \<Rightarrow> nat \<Rightarrow> priority_item \<Rightarrow> priority_item list" where
  "siftdown_loop heap startpos pos newitem =
     (if pos > startpos then
        (let parentpos = (pos - 1) div 2;
             parent = heap ! parentpos
         in if item_lt newitem parent
            then siftdown_loop (heap[pos := parent]) startpos parentpos newitem
            else heap[pos := newitem])
      else heap[pos := newitem])"
  by pat_completeness auto
termination
  by (relation "measure (\<lambda>(heap, startpos, pos, newitem). pos)") auto

definition siftdown :: "priority_item list \<Rightarrow> nat \<Rightarrow> nat \<Rightarrow> priority_item list" where
  "siftdown heap startpos pos = siftdown_loop heap startpos pos (heap ! pos)"

text \<open>
  \<open>_siftup\<close> first moves the smaller child up until a leaf is reached, then puts the item
  there and sifts it down. The loop returns the array and the leaf position.
\<close>

function siftup_loop :: "priority_item list \<Rightarrow> nat \<Rightarrow> nat \<Rightarrow> priority_item list \<times> nat" where
  "siftup_loop heap endpos pos =
     (let childpos = 2 * pos + 1 in
      if childpos < endpos then
        (let rightpos = childpos + 1;
             childpos' = (if rightpos < endpos \<and> \<not> item_lt (heap ! childpos) (heap ! rightpos)
                          then rightpos else childpos)
         in siftup_loop (heap[pos := heap ! childpos']) endpos childpos')
      else (heap, pos))"
  by pat_completeness auto
termination
  by (relation "measure (\<lambda>(heap, endpos, pos). endpos - pos)") auto

definition siftup :: "priority_item list \<Rightarrow> nat \<Rightarrow> priority_item list" where
  "siftup heap pos =
     (let endpos = length heap;
          startpos = pos;
          newitem = heap ! pos;
          (heap', pos') = siftup_loop heap endpos pos
      in siftdown (heap'[pos' := newitem]) startpos pos')"

definition heappush :: "priority_item list \<Rightarrow> priority_item \<Rightarrow> priority_item list" where
  "heappush heap item = siftdown (heap @ [item]) 0 (length (heap @ [item]) - 1)"

text \<open>\<open>heappop\<close> raises \<open>IndexError\<close> on an empty heap; otherwise it returns the root and the new array.\<close>

definition heappop :: "priority_item list \<Rightarrow> py_error + (priority_item \<times> priority_item list)" where
  "heappop heap =
     (if heap = [] then Inl IndexError
      else
        (let lastelt = last heap;
             heap' = butlast heap
         in if heap' \<noteq> [] then Inr (heap' ! 0, siftup (heap'[0 := lastelt]) 0)
            else Inr (lastelt, heap')))"

section \<open>Rate limiter and duplicate detector\<close>

text \<open>
  \<open>time.time()\<close> is an input: every operation that reads the clock takes the reading \<open>now\<close>.
  The \<open>tokens\<close> of a rate limiter are a \<open>defaultdict(list)\<close>: every key has a list.
\<close>

record rate_limiter =
  rate :: int
  rl_window :: real
  tokens :: "pystr \<Rightarrow> real list"

definition RateLimiter :: "int \<Rightarrow> rate_limiter" where
  "RateLimiter r = \<lparr>rate = r, rl_window = 60, tokens = (\<lambda>k. [])\<rparr>"

definition is_allowed :: "real \<Rightarrow> pystr \<Rightarrow> rate_limiter \<Rightarrow> bool \<times> rate_limiter" where
  "is_allowed now key rl =
     (let cutoff = now - rl_window rl;
          kept = filter (\<lambda>t. t > cutoff) (tokens rl key)
      in if int (length kept) < rate rl
         then (True, rl\<lparr>tokens := (tokens rl)(key := kept @ [now])\<rparr>)
         else (False, rl\<lparr>tokens := (tokens rl)(key := kept)\<rparr>))"

definition get_remaining :: "real \<Rightarrow> pystr \<Rightarrow> rate_limiter \<Rightarrow> int \<times> rate_limiter" where
  "get_remaining now key rl =
     (let cutoff = now - rl_window rl;
          kept = filter (\<lambda>t. t > cutoff) (tokens rl key)
      in (max 0 (rate rl - int (length kept)), rl\<lparr>tokens := (tokens rl)(key := kept)\<rparr>))"

text \<open>
  The duplicate detector keeps, per digest of a text, the time it was first seen. The digest
  function (\<open>hashlib.md5(...).hexdigest()\<close>) is a parameter.
\<close>

record duplicate_detector =
  dd_window :: real
  seen :: "pystr \<rightharpoonup> real"

definition DuplicateDetector :: "real \<Rightarrow> duplicate_detector" where
  "DuplicateDetector w = \<lparr>dd_window = w, seen = Map.empty\<rparr>"

definition is_duplicate ::
  "(pystr \<Rightarrow> pystr) \<Rightarrow> real \<Rightarrow> pystr \<Rightarrow> duplicate_detector \<Rightarrow> bool \<times> duplicate_detector" where
  "is_duplicate md5 now txt dd =
     (let text_hash = md5 txt;
          fresh = (\<lambda>k. case seen dd k of
                          None \<Rightarrow> None
                        | Some v \<Rightarrow> if now - v < dd_window dd then Some v else None)
      in if fresh text_hash \<noteq> None
         then (True, dd\<lparr>seen := fresh\<rparr>)
         else (False, dd\<lparr>seen := fresh(text_hash \<mapsto> now)\<rparr>))"

section \<open>The queue service\<close>

record queue_config =
  QUEUE_MAX_SIZE :: int
  QUEUE_DUPLICATE_WINDOW :: real
  RATE_LIMIT_TWITCH :: int
  RATE_LIMIT_YOUTUBE :: int

text \<open>What \<open>socketio.emit\<close> sends to the browser clients, with the fields of each payload.\<close>

datatype emit_event =
    Skip_event
  | Tts_ready (ready_id: pystr) (ready_audio_id: pystr) (ready_text: pystr)
      (ready_event_type: "event_type option") (ready_platform: "platform option")
  | Queue_update (update_size: nat) (update_max_size: int) (update_current: "tts_message option")
      (update_twitch: int) (update_youtube: int)

text \<open>
  The fields of \<open>QueueService\<close>; \<open>emitted\<close> is the history of what was sent through
  \<open>socketio\<close>, oldest first.
\<close>

record queue_service =
  config :: queue_config
  queue :: "priority_item list"
  current_message :: "tts_message option"
  messages :: "pystr \<rightharpoonup> tts_message"
  rate_limiters :: "platform \<Rightarrow> rate_limiter"
  duplicate_detector :: duplicate_detector
  emitted :: "emit_event list"

definition platform_value :: "platform \<Rightarrow> pystr" where
  "platform_value p = (case p of TWITCH \<Rightarrow> str ''twitch'' | YOUTUBE \<Rightarrow> str ''youtube'')"

definition QueueService :: "queue_config \<Rightarrow> queue_service" where
  "QueueService cfg =
     \<lparr>config = cfg, queue = [], current_message = None, messages = Map.empty,
      rate_limiters = (\<lambda>p. case p of TWITCH \<Rightarrow> RateLimiter (RATE_LIMIT_TWITCH cfg)
                                    | YOUTUBE \<Rightarrow> RateLimiter (RATE_LIMIT_YOUTUBE cfg)),
      duplicate_detector = DuplicateDetector (QUEUE_DUPLICATE_WINDOW cfg),
      emitted = []\<rparr>"

definition emit :: "emit_event \<Rightarrow> queue_service \<Rightarrow> queue_service" where
  "emit e s = s\<lparr>emitted := emitted s @ [e]\<rparr>"

text \<open>
  \<open>get_queue_status\<close> asks both rate limiters for their remaining tokens, which prunes
  their token lists; \<open>_notify_queue_update\<close> emits the status.
\<close>

definition get_queue_status :: "real \<Rightarrow> queue_service \<Rightarrow> emit_event \<times> queue_service" where
  "get_queue_status now s =
     (let (tw, rl_tw) = get_remaining now (str ''twitch'') (rate_limiters s TWITCH);
          s1 = s\<lparr>rate_limiters := (rate_limiters s)(TWITCH := rl_tw)\<rparr>;
          (yt, rl_yt) = get_remaining now (str ''youtube'') (rate_limiters s1 YOUTUBE);
          s2 = s1\<lparr>rate_limiters := (rate_limiters s1)(YOUTUBE := rl_yt)\<rparr>
      in (Queue_update (length (queue s2)) (QUEUE_MAX_SIZE (config s2)) (current_message s2) tw yt,
          s2))"

definition notify_queue_update :: "real \<Rightarrow> queue_service \<Rightarrow> queue_service" where
  "notify_queue_update now s = (let (status, s1) = get_queue_status now s in emit status s1)"

text \<open>\<open>get_next\<close>: pop the root of the heap and make its message the current one.\<close>

definition get_next :: "queue_service \<Rightarrow> tts_message option \<times> queue_service" where
  "get_next s =
     (if queue s = [] then (None, s)
      else
        (case heappop (queue s) of
           Inl e \<Rightarrow> (None, s)
         | Inr (item, q) \<Rightarrow>
             (let message = item_message item;
                  s1 = s\<lparr>queue := q\<rparr>;
                  s2 = (if messages s1 (msg_id message) \<noteq> None
                        then s1\<lparr>messages := (messages s1)(msg_id message := None)\<rparr> else s1)
              in (Some message, s2\<lparr>current_message := Some message\<rparr>))))"

text \<open>\<open>audio_path.split("/")[-1]\<close>: what follows the last slash.\<close>

definition last_segment :: "pystr \<Rightarrow> pystr" where
  "last_segment p = rev (takeWhile (\<lambda>c. c \<noteq> 47) (rev p))"

definition send_next :: "queue_service \<Rightarrow> queue_service" where
  "send_next s =
     (let (next_message, s1) = get_next s in
      case next_message of
        None \<Rightarrow> s1
      | Some message \<Rightarrow>
          (case audio_path message of
             None \<Rightarrow> s1
           | Some path \<Rightarrow>
               if path = [] then s1
               else
                 (let audio_id = py_replace (str ''.wav'') [] (last_segment path) in
                  emit (Tts_ready (msg_id message) audio_id
                          (if display_text message \<noteq> [] then display_text message
                           else msg_text message)
                          (map_option event_kind (event message))
                          (map_option event_platform (event message))) s1)))"

text \<open>
  The block of \<open>add_message\<close> that runs under the queue lock. \<open>del self._messages[...]\<close>
  raises \<open>KeyError\<close> when the identifier of the removed item is not a key; the heap has
  then already lost the item.
\<close>

definition locked_enqueue :: "tts_message \<Rightarrow> queue_service \<Rightarrow> unit result \<times> queue_service" where
  "locked_enqueue message s =
     (let (dropped, s1) =
            (if int (length (queue s)) \<ge> QUEUE_MAX_SIZE (config s) \<and> queue s \<noteq> [] then
               (case heappop (queue s) of
                  Inl e \<Rightarrow> (Raised e, s)
                | Inr (removed, q) \<Rightarrow>
                    (let s' = s\<lparr>queue := q\<rparr>;
                         k = msg_id (item_message removed)
                     in if messages s' k = None then (Raised KeyError, s')
                        else (Returned (), s'\<lparr>messages := (messages s')(k := None)\<rparr>)))
             else (Returned (), s))
      in case dropped of
           Raised e \<Rightarrow> (Raised e, s1)
         | Returned u \<Rightarrow>
             (Returned (),
              s1\<lparr>queue := heappush (queue s1) (PriorityItem message),
                 messages := (messages s1)(msg_id message \<mapsto> message)\<rparr>))"

text \<open>\<open>add_message\<close>: duplicate check, rate limit, bounded insert, notification, dispatch.\<close>

definition add_message ::
  "(pystr \<Rightarrow> pystr) \<Rightarrow> real \<Rightarrow> tts_message \<Rightarrow> queue_service \<Rightarrow> bool result \<times> queue_service" where
  "add_message md5 now message s =
     (let (dup, dd) = is_duplicate md5 now (msg_text message) (duplicate_detector s);
          s1 = s\<lparr>duplicate_detector := dd\<rparr>
      in if dup then (Returned False, s1)
         else
           (let (allowed, s2) =
                  (case event message of
                     None \<Rightarrow> (True, s1)
                   | Some ev \<Rightarrow>
                       (let platform = event_platform ev;
                            (ok, rl) = is_allowed now (platform_value platform)
                                         (rate_limiters s1 platform)
                        in (ok, s1\<lparr>rate_limiters := (rate_limiters s1)(platform := rl)\<rparr>)))
            in if \<not> allowed then (Returned False, s2)
               else
                 (case locked_enqueue message s2 of
                    (Raised e, s3) \<Rightarrow> (Raised e, s3)
                  | (Returned u, s3) \<Rightarrow>
                      (let s4 = notify_queue_update now s3;
                           s5 = (if current_message s4 = None then send_next s4 else s4)
                       in (Returned True, s5)))))"

definition mark_complete :: "pystr \<Rightarrow> queue_service \<Rightarrow> queue_service" where
  "mark_complete message_id s =
     (let s1 = (case current_message s of
                  None \<Rightarrow> s
                | Some m \<Rightarrow> if msg_id m = message_id then s\<lparr>current_message := None\<rparr> else s)
      in send_next s1)"

definition skip_current :: "queue_service \<Rightarrow> queue_service" where
  "skip_current s =
     (let s1 = (if current_message s \<noteq> None then s\<lparr>current_message := None\<rparr> else s);
          s2 = emit Skip_event s1
      in send_next s2)"

definition clear_queue :: "real \<Rightarrow> queue_service \<Rightarrow> queue_service" where
  "clear_queue now s = notify_queue_update now (s\<lparr>queue := [], messages := Map.empty\<rparr>)"

text \<open>
  The operations a client of the service can invoke, each at a clock reading, and a run of
  them from the freshly constructed service.
\<close>

datatype operation =
    Add_message tts_message
  | Get_next
  | Mark_complete pystr
  | Skip_current
  | Clear_queue
  | Get_queue_status

definition apply_operation ::
  "(pystr \<Rightarrow> pystr) \<Rightarrow> real \<times> operation \<Rightarrow> queue_service \<Rightarrow> queue_service" where
  "apply_operation md5 timed s =
     (case snd timed of
        Add_message m \<Rightarrow> snd (add_message md5 (fst timed) m s)
      | Get_next \<Rightarrow> snd (get_next s)
      | Mark_complete i \<Rightarrow> mark_complete i s
      | Skip_current \<Rightarrow> skip_current s
      | Clear_queue \<Rightarrow> clear_queue (fst timed) s
      | Get_queue_status \<Rightarrow> snd (get_queue_status (fst timed) s))"

definition run ::
  "(pystr \<Rightarrow> pystr) \<Rightarrow> queue_config \<Rightarrow> (real \<times> operation) list \<Rightarrow> queue_service" where
  "run md5 cfg ops = foldl (\<lambda>s timed. apply_operation md5 timed s) (QueueService cfg) ops"

section \<open>The audio cache and the audio endpoint\<close>




















section \<open>The heap invariant of the queue\<close>

text \<open>
  The array is a heap when no item is smaller than its parent; the parent of position \<open>i\<close>
  is position \<open>(i - 1) div 2\<close>. The two sifting loops keep a weaker invariant while an
  item is on its way: \<open>hole_inv\<close> for the way up to the root, \<open>up_inv\<close> for the way down
  to a leaf.
\<close>

declare siftdown_loop.simps [simp del] siftup_loop.simps [simp del]

definition is_heap :: "priority_item list \<Rightarrow> bool" where
  "is_heap h \<longleftrightarrow>
     (\<forall>i. 0 < i \<and> i < length h \<longrightarrow> item_priority (h ! ((i - 1) div 2)) \<le> item_priority (h ! i))"

definition hole_inv :: "priority_item list \<Rightarrow> nat \<Rightarrow> priority_item \<Rightarrow> bool" where
  "hole_inv h p x \<longleftrightarrow>
     (\<forall>i. 0 < i \<and> i < length h \<and> i \<noteq> p \<longrightarrow>
        item_priority (h ! ((i - 1) div 2)) \<le> item_priority (h ! i)) \<and>
     item_priority x \<le> item_priority (h ! p) \<and>
     (\<forall>i. 0 < i \<and> i < length h \<and> (i - 1) div 2 = p \<and> 0 < p \<longrightarrow>
        item_priority (h ! ((p - 1) div 2)) \<le> item_priority (h ! i))"

lemma siftdown_loop_length: "length (siftdown_loop h s p x) = length h"
  by (induction h s p x rule: siftdown_loop.induct)
     (subst siftdown_loop.simps, simp add: Let_def)

lemma hole_inv_step:
  assumes inv: "hole_inv h p x" and p: "0 < p" "p < length h"
    and lt: "item_priority x < item_priority (h ! ((p - 1) div 2))"
  shows "hole_inv (h[p := h ! ((p - 1) div 2)]) ((p - 1) div 2) x"
proof -
  let ?pp = "(p - 1) div 2"
  let ?h = "h[p := h ! ?pp]"
  have pp: "?pp < p" using p by simp
  have A: "\<And>i. 0 < i \<Longrightarrow> i < length h \<Longrightarrow> i \<noteq> p \<Longrightarrow>
      item_priority (h ! ((i - 1) div 2)) \<le> item_priority (h ! i)"
    using inv by (simp add: hole_inv_def)
  have C: "\<And>i. 0 < i \<Longrightarrow> i < length h \<Longrightarrow> (i - 1) div 2 = p \<Longrightarrow>
      item_priority (h ! ?pp) \<le> item_priority (h ! i)"
    using inv p by (simp add: hole_inv_def)
  have a: "item_priority (?h ! ((i - 1) div 2)) \<le> item_priority (?h ! i)"
    if "0 < i" "i < length ?h" "i \<noteq> ?pp" for i
  proof (cases "i = p")
    case True
    then show ?thesis using p pp by simp
  next
    case False
    show ?thesis
    proof (cases "(i - 1) div 2 = p")
      case True
      then show ?thesis using False that C [of i] p by simp
    next
      case np: False
      then show ?thesis using False that A [of i] by simp
    qed
  qed
  have b: "item_priority x \<le> item_priority (?h ! ?pp)"
    using lt pp by simp
  have c: "item_priority (?h ! ((?pp - 1) div 2)) \<le> item_priority (?h ! i)"
    if "0 < i" "i < length ?h" "(i - 1) div 2 = ?pp" "0 < ?pp" for i
  proof -
    have ne: "(?pp - 1) div 2 \<noteq> p" using pp by linarith
    have g: "item_priority (h ! ((?pp - 1) div 2)) \<le> item_priority (h ! ?pp)"
      using A [of ?pp] that pp p by simp
    show ?thesis
    proof (cases "i = p")
      case True
      then show ?thesis using g ne p by simp
    next
      case False
      then have "item_priority (h ! ?pp) \<le> item_priority (h ! i)"
        using A [of i] that by simp
      then show ?thesis using g ne False by simp
    qed
  qed
  show ?thesis
    unfolding hole_inv_def using a b c by blast
qed

lemma hole_inv_stop:
  assumes inv: "hole_inv h p x" and p: "p < length h"
    and ge: "0 < p \<Longrightarrow> item_priority (h ! ((p - 1) div 2)) \<le> item_priority x"
  shows "is_heap (h[p := x])"
  unfolding is_heap_def
proof (intro allI impI)
  fix i
  assume i: "0 < i \<and> i < length (h[p := x])"
  have A: "\<And>i. 0 < i \<Longrightarrow> i < length h \<Longrightarrow> i \<noteq> p \<Longrightarrow>
      item_priority (h ! ((i - 1) div 2)) \<le> item_priority (h ! i)"
    using inv by (simp add: hole_inv_def)
  have B: "item_priority x \<le> item_priority (h ! p)"
    using inv by (simp add: hole_inv_def)
  show "item_priority (h[p := x] ! ((i - 1) div 2)) \<le> item_priority (h[p := x] ! i)"
  proof (cases "i = p")
    case True
    have "(p - 1) div 2 \<noteq> p" using i True by linarith
    then show ?thesis using True i ge p by simp
  next
    case False
    show ?thesis
    proof (cases "(i - 1) div 2 = p")
      case True
      then show ?thesis using False i A [of i] B p by simp
    next
      case np: False
      then show ?thesis using False i A [of i] by simp
    qed
  qed
qed

lemma siftdown_loop_heap:
  "s = 0 \<Longrightarrow> p < length h \<Longrightarrow> hole_inv h p x \<Longrightarrow> is_heap (siftdown_loop h s p x)"
proof (induction h s p x rule: siftdown_loop.induct)
  case (1 heap startpos pos newitem)
  show ?case
  proof (cases "pos > startpos \<and> item_lt newitem (heap ! ((pos - 1) div 2))")
    case True
    then have lt: "item_priority newitem < item_priority (heap ! ((pos - 1) div 2))"
      by (simp add: item_lt_def)
    have "hole_inv (heap[pos := heap ! ((pos - 1) div 2)]) ((pos - 1) div 2) newitem"
      using hole_inv_step [OF "1.prems"(3) _ "1.prems"(2) lt] True by simp
    moreover have "(pos - 1) div 2 < length (heap[pos := heap ! ((pos - 1) div 2)])"
      using "1.prems"(2) by simp
    ultimately have "is_heap (siftdown_loop (heap[pos := heap ! ((pos - 1) div 2)]) startpos
        ((pos - 1) div 2) newitem)"
      using "1.IH" [OF _ refl refl _ "1.prems"(1)] True by simp
    then show ?thesis
      using True by (subst siftdown_loop.simps) (simp add: Let_def)
  next
    case False
    then have "siftdown_loop heap startpos pos newitem = heap[pos := newitem]"
      by (subst siftdown_loop.simps) (auto simp: Let_def)
    moreover have "is_heap (heap[pos := newitem])"
      using False "1.prems" by (intro hole_inv_stop) (auto simp: item_lt_def)
    ultimately show ?thesis by simp
  qed
qed


definition up_inv :: "priority_item list \<Rightarrow> nat \<Rightarrow> bool" where
  "up_inv h p \<longleftrightarrow>
     (\<forall>i. 0 < i \<and> i < length h \<and> (i - 1) div 2 \<noteq> p \<longrightarrow>
        item_priority (h ! ((i - 1) div 2)) \<le> item_priority (h ! i)) \<and>
     (\<forall>i. 0 < i \<and> i < length h \<and> (i - 1) div 2 = p \<and> 0 < p \<longrightarrow>
        item_priority (h ! ((p - 1) div 2)) \<le> item_priority (h ! i))"

lemma parent_child: "0 < i \<Longrightarrow> (i - 1) div 2 = p \<longleftrightarrow> i = 2 * p + 1 \<or> i = 2 * p + 2"
  for i p :: nat
  by presburger

lemma up_inv_step:
  assumes inv: "up_inv h p" and c: "2 * p + 1 < length h"
    and cdef: "c = (if 2 * p + 1 + 1 < length h \<and> \<not> item_lt (h ! (2 * p + 1)) (h ! (2 * p + 1 + 1))
                    then 2 * p + 1 + 1 else 2 * p + 1)"
  shows "up_inv (h[p := h ! c]) c"
proof -
  let ?h = "h[p := h ! c]"
  have cp: "(c - 1) div 2 = p" "0 < c" "c < length h" "c \<noteq> p"
    using c cdef by (auto split: if_splits)
  have A: "\<And>i. 0 < i \<Longrightarrow> i < length h \<Longrightarrow> (i - 1) div 2 \<noteq> p \<Longrightarrow>
      item_priority (h ! ((i - 1) div 2)) \<le> item_priority (h ! i)"
    using inv by (simp add: up_inv_def)
  have C: "\<And>i. 0 < i \<Longrightarrow> i < length h \<Longrightarrow> (i - 1) div 2 = p \<Longrightarrow> 0 < p \<Longrightarrow>
      item_priority (h ! ((p - 1) div 2)) \<le> item_priority (h ! i)"
    using inv by (simp add: up_inv_def)
  have smallest: "item_priority (h ! c) \<le> item_priority (h ! i)"
    if "0 < i" "i < length h" "(i - 1) div 2 = p" for i
  proof -
    have "i = 2 * p + 1 \<or> i = 2 * p + 2" using that parent_child [of i p] by simp
    then show ?thesis using that cdef by (auto simp: item_lt_def split: if_splits)
  qed
  have a: "item_priority (?h ! ((i - 1) div 2)) \<le> item_priority (?h ! i)"
    if "0 < i" "i < length ?h" "(i - 1) div 2 \<noteq> c" for i
  proof (cases "i = p")
    case True
    then have "0 < p" using that by simp
    have ne: "(p - 1) div 2 \<noteq> p" using \<open>0 < p\<close> by linarith
    show ?thesis using True C [of c] cp \<open>0 < p\<close> ne that by simp
  next
    case False
    show ?thesis
    proof (cases "(i - 1) div 2 = p")
      case True
      then show ?thesis using False that smallest [of i] cp by simp
    next
      case np: False
      then show ?thesis using False that A [of i] by simp
    qed
  qed
  have b: "item_priority (?h ! ((c - 1) div 2)) \<le> item_priority (?h ! i)"
    if "0 < i" "i < length ?h" "(i - 1) div 2 = c" for i
  proof -
    have "i \<noteq> p" using that cp by linarith
    moreover have "item_priority (h ! c) \<le> item_priority (h ! i)"
      using A [of i] that cp by simp
    ultimately show ?thesis using cp that by simp
  qed
  show ?thesis
    unfolding up_inv_def using a b by blast
qed

lemma siftup_loop_result:
  "n = length h \<Longrightarrow> p < length h \<Longrightarrow> up_inv h p \<Longrightarrow> siftup_loop h n p = (h', p') \<Longrightarrow>
   length h' = length h \<and> p' < length h \<and> length h \<le> 2 * p' + 1 \<and> up_inv h' p'"
proof (induction h n p arbitrary: h' p' rule: siftup_loop.induct)
  case (1 heap endpos pos)
  show ?case
  proof (cases "2 * pos + 1 < endpos")
    case True
    define c where "c = (if 2 * pos + 1 + 1 < length heap \<and>
        \<not> item_lt (heap ! (2 * pos + 1)) (heap ! (2 * pos + 1 + 1)) then 2 * pos + 1 + 1
        else 2 * pos + 1)"
    have step: "siftup_loop heap endpos pos = siftup_loop (heap[pos := heap ! c]) endpos c"
      using True "1.prems"(1) by (subst siftup_loop.simps) (simp add: Let_def c_def)
    have inv: "up_inv (heap[pos := heap ! c]) c"
      using up_inv_step [OF "1.prems"(3) _ c_def] True "1.prems"(1) by simp
    have cl: "c < length (heap[pos := heap ! c])"
      using True "1.prems"(1) by (simp add: c_def)
    have "length h' = length (heap[pos := heap ! c]) \<and> p' < length (heap[pos := heap ! c]) \<and>
        length (heap[pos := heap ! c]) \<le> 2 * p' + 1 \<and> up_inv h' p'"
      using "1.IH" [of "2 * pos + 1" "2 * pos + 1 + 1" c h' p'] True inv cl step "1.prems"(1,4)
      by (simp add: c_def)
    then show ?thesis by simp
  next
    case False
    then have "siftup_loop heap endpos pos = (heap, pos)"
      by (subst siftup_loop.simps) (simp add: Let_def)
    then show ?thesis using "1.prems" False by simp
  qed
qed


lemma siftup_loop_result_length:
  "n = length h \<Longrightarrow> p < length h \<Longrightarrow> siftup_loop h n p = (h', p') \<Longrightarrow>
   length h' = length h \<and> p' < length h"
proof (induction h n p arbitrary: h' p' rule: siftup_loop.induct)
  case (1 heap endpos pos)
  show ?case
  proof (cases "2 * pos + 1 < endpos")
    case True
    define c where "c = (if 2 * pos + 1 + 1 < length heap \<and>
        \<not> item_lt (heap ! (2 * pos + 1)) (heap ! (2 * pos + 1 + 1)) then 2 * pos + 1 + 1
        else 2 * pos + 1)"
    have c: "c < length heap"
      using True "1.prems"(1) by (auto simp: c_def)
    have step: "siftup_loop heap endpos pos = siftup_loop (heap[pos := heap ! c]) endpos c"
      using True "1.prems"(1) by (subst siftup_loop.simps) (simp add: Let_def c_def)
    show ?thesis
      using "1.IH" [of "2 * pos + 1" "2 * pos + 1 + 1" c h' p'] True c step "1.prems"(1,3)
      by (simp add: c_def)
  next
    case False
    then have "siftup_loop heap endpos pos = (heap, pos)"
      by (subst siftup_loop.simps) (simp add: Let_def)
    then show ?thesis using "1.prems" by simp
  qed
qed

lemma leaf_hole_inv:
  assumes inv: "up_inv h p" and p: "p < length h" and leaf: "length h \<le> 2 * p + 1"
  shows "hole_inv (h[p := x]) p x"
proof -
  have nochild: "(i - 1) div 2 \<noteq> p" if "0 < i" "i < length h" for i
    using that leaf parent_child [of i p] by auto
  have A: "\<And>i. 0 < i \<Longrightarrow> i < length h \<Longrightarrow> (i - 1) div 2 \<noteq> p \<Longrightarrow>
      item_priority (h ! ((i - 1) div 2)) \<le> item_priority (h ! i)"
    using inv by (simp add: up_inv_def)
  have a: "item_priority (h[p := x] ! ((i - 1) div 2)) \<le> item_priority (h[p := x] ! i)"
    if "0 < i" "i < length (h[p := x])" "i \<noteq> p" for i
    using that nochild [of i] A [of i] by simp
  have c: "item_priority (h[p := x] ! ((p - 1) div 2)) \<le> item_priority (h[p := x] ! i)"
    if "0 < i" "i < length (h[p := x])" "(i - 1) div 2 = p" for i
    using that nochild [of i] by simp
  show ?thesis
    unfolding hole_inv_def using a c p by auto
qed

lemma siftup_heap:
  assumes inv: "up_inv h 0" and ne: "h \<noteq> []"
  shows "is_heap (siftup h 0)"
proof -
  obtain h' p' where loop: "siftup_loop h (length h) 0 = (h', p')"
    by (cases "siftup_loop h (length h) 0")
  have r: "length h' = length h \<and> p' < length h \<and> length h \<le> 2 * p' + 1 \<and> up_inv h' p'"
    using siftup_loop_result [OF refl _ inv loop] ne by simp
  then have "hole_inv (h'[p' := h ! 0]) p' (h ! 0)"
    by (intro leaf_hole_inv) simp_all
  then have "is_heap (siftdown_loop (h'[p' := h ! 0]) 0 p' (h ! 0))"
    using r by (intro siftdown_loop_heap) simp_all
  then show ?thesis
    using loop r by (simp add: siftup_def siftdown_def Let_def)
qed

lemma siftdown_loop_mset:
  "p < length h \<Longrightarrow> mset (siftdown_loop h s p x) = mset (h[p := x])"
proof (induction h s p x rule: siftdown_loop.induct)
  case (1 heap startpos pos newitem)
  show ?case
  proof (cases "pos > startpos \<and> item_lt newitem (heap ! ((pos - 1) div 2))")
    case True
    let ?pp = "(pos - 1) div 2"
    let ?g = "heap[pos := newitem]"
    have pp: "?pp < pos" "?pp < length heap" using True "1.prems" by auto
    have "mset (siftdown_loop (heap[pos := heap ! ?pp]) startpos ?pp newitem) =
        mset (heap[pos := heap ! ?pp, ?pp := newitem])"
      using "1.IH" [OF _ refl refl] True pp by simp
    also have "heap[pos := heap ! ?pp, ?pp := newitem] = ?g[pos := ?g ! ?pp, ?pp := ?g ! pos]"
      using pp "1.prems" by simp
    also have "mset \<dots> = mset ?g"
      using pp "1.prems" by (intro mset_swap) simp_all
    finally show ?thesis
      using True by (subst siftdown_loop.simps) (simp add: Let_def)
  next
    case False
    then show ?thesis
      by (subst siftdown_loop.simps) (auto simp: Let_def)
  qed
qed

lemma siftup_loop_mset:
  "n = length h \<Longrightarrow> p < length h \<Longrightarrow> siftup_loop h n p = (h', p') \<Longrightarrow>
   mset (h'[p' := y]) = mset (h[p := y])"
proof (induction h n p arbitrary: h' p' rule: siftup_loop.induct)
  case (1 heap endpos pos)
  show ?case
  proof (cases "2 * pos + 1 < endpos")
    case True
    define c where "c = (if 2 * pos + 1 + 1 < length heap \<and>
        \<not> item_lt (heap ! (2 * pos + 1)) (heap ! (2 * pos + 1 + 1)) then 2 * pos + 1 + 1
        else 2 * pos + 1)"
    let ?g = "heap[pos := y]"
    have c: "c < length heap" "c \<noteq> pos"
      using True "1.prems"(1) by (auto simp: c_def)
    have step: "siftup_loop heap endpos pos = siftup_loop (heap[pos := heap ! c]) endpos c"
      using True "1.prems"(1) by (subst siftup_loop.simps) (simp add: Let_def c_def)
    have "mset (h'[p' := y]) = mset (heap[pos := heap ! c, c := y])"
      using "1.IH" [of "2 * pos + 1" "2 * pos + 1 + 1" c h' p'] True c step "1.prems"(1,3)
      by (simp add: c_def)
    also have "heap[pos := heap ! c, c := y] = ?g[pos := ?g ! c, c := ?g ! pos]"
      using c "1.prems" by simp
    also have "mset \<dots> = mset ?g"
      using c "1.prems" by (intro mset_swap) simp_all
    finally show ?thesis .
  next
    case False
    then have "siftup_loop heap endpos pos = (heap, pos)"
      by (subst siftup_loop.simps) (simp add: Let_def)
    then show ?thesis using "1.prems" by simp
  qed
qed

lemma siftup_mset:
  assumes ne: "h \<noteq> []"
  shows "mset (siftup h 0) = mset h"
proof -
  obtain h' p' where loop: "siftup_loop h (length h) 0 = (h', p')"
    by (cases "siftup_loop h (length h) 0")
  have len: "length (h'[p' := h ! 0]) = length h \<and> p' < length h"
    using siftup_loop_result_length [OF refl _ loop] ne by simp
  have "mset (siftup h 0) = mset (h'[p' := h ! 0])"
    using loop len by (simp add: siftup_def siftdown_def siftdown_loop_mset Let_def)
  also have "\<dots> = mset (h[0 := h ! 0])"
    using siftup_loop_mset [OF refl _ loop] ne by simp
  finally show ?thesis by simp
qed


lemma heappush_length: "length (heappush h x) = Suc (length h)"
  by (simp add: heappush_def siftdown_def siftdown_loop_length)

lemma heappush_mset: "mset (heappush h x) = add_mset x (mset h)"
  by (simp add: heappush_def siftdown_def siftdown_loop_mset)

lemma heappush_heap:
  assumes "is_heap h"
  shows "is_heap (heappush h x)"
proof -
  have a: "item_priority ((h @ [x]) ! ((i - 1) div 2)) \<le> item_priority ((h @ [x]) ! i)"
    if "0 < i" "i < length (h @ [x])" "i \<noteq> length h" for i
  proof -
    have "i < length h" using that by simp
    moreover have "(i - 1) div 2 < length h" using \<open>i < length h\<close> by linarith
    ultimately show ?thesis
      using assms that by (simp add: is_heap_def nth_append)
  qed
  have c: "(i - 1) div 2 \<noteq> length h" if "0 < i" "i < length (h @ [x])" for i
  proof -
    have "(i - 1) div 2 < i" using that by linarith
    then show ?thesis using that by simp
  qed
  have "hole_inv (h @ [x]) (length h) x"
    unfolding hole_inv_def using a c by auto
  then have "is_heap (siftdown_loop (h @ [x]) 0 (length h) x)"
    by (intro siftdown_loop_heap) simp_all
  then show ?thesis
    by (simp add: heappush_def siftdown_def)
qed

lemma is_heap_butlast: "is_heap h \<Longrightarrow> is_heap (butlast h)"
proof -
  assume h: "is_heap h"
  have "item_priority (butlast h ! ((i - 1) div 2)) \<le> item_priority (butlast h ! i)"
    if "0 < i" "i < length (butlast h)" for i
  proof -
    have "i < length h - 1" using that by simp
    moreover have "(i - 1) div 2 < length h - 1" using \<open>i < length h - 1\<close> by linarith
    ultimately show ?thesis
      using h that by (simp add: is_heap_def nth_butlast)
  qed
  then show ?thesis by (simp add: is_heap_def)
qed

lemma up_inv_root: "is_heap h \<Longrightarrow> up_inv (h[0 := x]) 0"
proof -
  assume h: "is_heap h"
  have "item_priority (h[0 := x] ! ((i - 1) div 2)) \<le> item_priority (h[0 := x] ! i)"
    if "0 < i" "i < length h" "(i - 1) div 2 \<noteq> 0" for i
    using h that by (simp add: is_heap_def)
  then show ?thesis by (simp add: up_inv_def)
qed

lemma heappop_empty: "heappop [] = Inl IndexError"
  by (simp add: heappop_def)

lemma heappop_nonempty:
  assumes "h \<noteq> []"
  shows "\<exists>h'. heappop h = Inr (h ! 0, h') \<and> length h' = length h - 1 \<and>
           mset h = add_mset (h ! 0) (mset h') \<and> (is_heap h \<longrightarrow> is_heap h')"
proof (cases "butlast h = []")
  case True
  then obtain a where a: "h = [a]"
    using assms by (cases h) (auto split: if_splits)
  show ?thesis
    by (simp add: a heappop_def is_heap_def)
next
  case False
  let ?b = "(butlast h)[0 := last h]"
  have pop: "heappop h = Inr (butlast h ! 0, siftup ?b 0)"
    using False assms by (simp add: heappop_def Let_def)
  have "length (butlast h) \<noteq> 0"
    using False by blast
  then have long: "1 < length h"
    by simp
  have root: "butlast h ! 0 = h ! 0"
    using long by (intro nth_butlast) simp
  have ne: "?b \<noteq> []" using False by simp
  have "size (mset (siftup ?b 0)) = size (mset ?b)"
    using siftup_mset [OF ne] by simp
  then have len: "length (siftup ?b 0) = length h - 1"
    by simp
  have "mset (butlast h @ [last h]) = mset (butlast h) + {#last h#}"
    by simp
  then have m1: "mset h = mset (butlast h) + {#last h#}"
    using assms by simp
  have m2: "mset ?b = mset (butlast h) - {#butlast h ! 0#} + {#last h#}"
    using long by (simp add: mset_update)
  have m3: "butlast h ! 0 \<in># mset (butlast h)"
    using long by simp
  have "mset h = add_mset (h ! 0) (mset ?b)"
    using m1 m2 m3 root by simp
  then have ms: "mset h = add_mset (h ! 0) (mset (siftup ?b 0))"
    using siftup_mset [OF ne] by simp
  have hp: "is_heap (siftup ?b 0)" if "is_heap h"
    using that ne by (intro siftup_heap up_inv_root is_heap_butlast)
  show ?thesis
    using pop root len ms hp by simp
qed

lemma is_heap_root_min:
  assumes "is_heap h"
  shows "i < length h \<Longrightarrow> item_priority (h ! 0) \<le> item_priority (h ! i)"
proof (induction i rule: less_induct)
  case (less i)
  show ?case
  proof (cases "i = 0")
    case True
    then show ?thesis by simp
  next
    case False
    then have p: "(i - 1) div 2 < i" by linarith
    have "item_priority (h ! 0) \<le> item_priority (h ! ((i - 1) div 2))"
      using less.IH [OF p] p less.prems by simp
    moreover have "item_priority (h ! ((i - 1) div 2)) \<le> item_priority (h ! i)"
      using assms False less.prems by (simp add: is_heap_def)
    ultimately show ?thesis by simp
  qed
qed

section \<open>Properties of the text cleaning\<close>

lemmas clean_text_eval =
  clean_text_def str_def emote_rule_def url_rule_def space_rule_def special_rule_def
  repeat_rule_def is_space_def is_word_def is_special_def py_strip_def

text \<open>
  Claim C7 (scenario S7). Cleaning the text \<open>Yaaaaaaaay https://x.y :Kappa:\<close> yields exactly
  \<open>Yaay\<close>: the emote token and the URL are removed, the whitespace is collapsed and
  trimmed, and the run of eight \<open>a\<close> is reduced to two.
\<close>

theorem clean_text_S7:
  "clean_text (str ''Yaaaaaaaay https://x.y :Kappa:'') = str ''Yaay''"
  by (simp add: clean_text_eval)

section \<open>Properties of the queue service\<close>

definition queue_ok :: "queue_service \<Rightarrow> bool" where
  "queue_ok s \<longleftrightarrow>
     is_heap (queue s) \<and> (\<forall>x \<in> set (queue s). item_priority x = - priority (item_message x))"

definition within_bound :: "queue_service \<Rightarrow> bool" where
  "within_bound s \<longleftrightarrow>
     int (length (queue s)) \<le> QUEUE_MAX_SIZE (config s) \<and>
     (\<forall>e \<in> set (emitted s). \<forall>n m c t y. e = Queue_update n m c t y \<longrightarrow> int n \<le> m)"

lemma heappush_set: "set (heappush h x) = insert x (set h)"
proof -
  have "set_mset (mset (heappush h x)) = set_mset (add_mset x (mset h))"
    by (simp only: heappush_mset)
  then show ?thesis by simp
qed

lemma heappop_Inr:
  assumes "heappop h = Inr (x, h')"
  shows "h \<noteq> [] \<and> x = h ! 0 \<and> length h' = length h - 1 \<and> mset h = add_mset x (mset h') \<and>
         (is_heap h \<longrightarrow> is_heap h')"
proof -
  have ne: "h \<noteq> []" using assms by (auto simp: heappop_def)
  show ?thesis using heappop_nonempty [OF ne] assms ne by auto
qed

lemma heappop_set: "heappop h = Inr (x, h') \<Longrightarrow> set h = insert x (set h')"
proof -
  assume "heappop h = Inr (x, h')"
  then have "mset h = add_mset x (mset h')" using heappop_Inr by blast
  then have "set_mset (mset h) = set_mset (add_mset x (mset h'))" by simp
  then show ?thesis by simp
qed

lemma get_queue_status_fields [simp]:
  "queue (snd (get_queue_status now s)) = queue s"
  "config (snd (get_queue_status now s)) = config s"
  "current_message (snd (get_queue_status now s)) = current_message s"
  "messages (snd (get_queue_status now s)) = messages s"
  "emitted (snd (get_queue_status now s)) = emitted s"
  "duplicate_detector (snd (get_queue_status now s)) = duplicate_detector s"
  by (simp_all add: get_queue_status_def Let_def case_prod_beta)

lemma get_queue_status_event:
  "\<exists>t y. fst (get_queue_status now s) =
     Queue_update (length (queue s)) (QUEUE_MAX_SIZE (config s)) (current_message s) t y"
  by (simp add: get_queue_status_def Let_def case_prod_beta)

lemma notify_fields [simp]:
  "queue (notify_queue_update now s) = queue s"
  "config (notify_queue_update now s) = config s"
  "current_message (notify_queue_update now s) = current_message s"
  "messages (notify_queue_update now s) = messages s"
  "duplicate_detector (notify_queue_update now s) = duplicate_detector s"
  by (simp_all add: notify_queue_update_def emit_def Let_def case_prod_beta)

lemma notify_emitted:
  "\<exists>t y. emitted (notify_queue_update now s) =
     emitted s @ [Queue_update (length (queue s)) (QUEUE_MAX_SIZE (config s)) (current_message s) t y]"
  using get_queue_status_event [of now s]
  by (auto simp: notify_queue_update_def emit_def Let_def case_prod_beta)

lemma get_next_fields [simp]:
  "config (snd (get_next s)) = config s"
  "emitted (snd (get_next s)) = emitted s"
  "rate_limiters (snd (get_next s)) = rate_limiters s"
  "duplicate_detector (snd (get_next s)) = duplicate_detector s"
  by (simp_all add: get_next_def Let_def split: sum.splits prod.splits)

lemma get_next_empty: "queue s = [] \<Longrightarrow> get_next s = (None, s)"
  by (simp add: get_next_def)

lemma get_next_nonempty:
  assumes "queue s \<noteq> []"
  shows "\<exists>q'. heappop (queue s) = Inr (queue s ! 0, q') \<and>
           fst (get_next s) = Some (item_message (queue s ! 0)) \<and>
           queue (snd (get_next s)) = q' \<and>
           current_message (snd (get_next s)) = Some (item_message (queue s ! 0))"
proof -
  obtain q' where "heappop (queue s) = Inr (queue s ! 0, q')"
    using heappop_nonempty [OF assms] by blast
  then show ?thesis using assms by (simp add: get_next_def Let_def)
qed

lemma get_next_queue_ok: "queue_ok s \<Longrightarrow> queue_ok (snd (get_next s))"
proof (cases "queue s = []")
  case True
  then show "queue_ok s \<Longrightarrow> queue_ok (snd (get_next s))" by (simp add: get_next_empty)
next
  case False
  assume ok: "queue_ok s"
  obtain q' where q: "heappop (queue s) = Inr (queue s ! 0, q')" "queue (snd (get_next s)) = q'"
    using get_next_nonempty [OF False] by blast
  have "is_heap q'" using heappop_Inr [OF q(1)] ok by (simp add: queue_ok_def)
  moreover have "set q' \<subseteq> set (queue s)" using heappop_set [OF q(1)] by auto
  ultimately show ?thesis using ok q(2) by (auto simp: queue_ok_def)
qed

lemma get_next_length: "length (queue (snd (get_next s))) \<le> length (queue s)"
proof (cases "queue s = []")
  case True
  then show ?thesis by (simp add: get_next_empty)
next
  case False
  obtain q' where q: "heappop (queue s) = Inr (queue s ! 0, q')" "queue (snd (get_next s)) = q'"
    using get_next_nonempty [OF False] by blast
  show ?thesis using heappop_Inr [OF q(1)] q(2) by simp
qed

lemma send_next_fields [simp]:
  "config (send_next s) = config s"
  "queue (send_next s) = queue (snd (get_next s))"
  "current_message (send_next s) = current_message (snd (get_next s))"
  by (simp_all add: send_next_def emit_def Let_def case_prod_beta split: option.splits)

lemma send_next_emitted:
  "emitted (send_next s) = emitted s \<or> (\<exists>i a t e p. emitted (send_next s) = emitted s @ [Tts_ready i a t e p])"
  by (simp add: send_next_def emit_def Let_def case_prod_beta split: option.splits)

lemma locked_enqueue_fields [simp]:
  "config (snd (locked_enqueue m s)) = config s"
  "emitted (snd (locked_enqueue m s)) = emitted s"
  "current_message (snd (locked_enqueue m s)) = current_message s"
  "rate_limiters (snd (locked_enqueue m s)) = rate_limiters s"
  "duplicate_detector (snd (locked_enqueue m s)) = duplicate_detector s"
  by (simp_all add: locked_enqueue_def Let_def split: sum.splits prod.splits result.splits)

text \<open>The three ways the locked block can end.\<close>

lemma locked_enqueue_cases:
  obtains
    (room) "\<not> (int (length (queue s)) \<ge> QUEUE_MAX_SIZE (config s) \<and> queue s \<noteq> [])"
      "fst (locked_enqueue m s) = Returned ()"
      "queue (snd (locked_enqueue m s)) = heappush (queue s) (PriorityItem m)"
  | (evict) q' where "int (length (queue s)) \<ge> QUEUE_MAX_SIZE (config s)" "queue s \<noteq> []"
      "heappop (queue s) = Inr (queue s ! 0, q')"
      "messages s (msg_id (item_message (queue s ! 0))) \<noteq> None"
      "fst (locked_enqueue m s) = Returned ()"
      "queue (snd (locked_enqueue m s)) = heappush q' (PriorityItem m)"
  | (key_error) q' where "int (length (queue s)) \<ge> QUEUE_MAX_SIZE (config s)" "queue s \<noteq> []"
      "heappop (queue s) = Inr (queue s ! 0, q')"
      "messages s (msg_id (item_message (queue s ! 0))) = None"
      "fst (locked_enqueue m s) = Raised KeyError"
      "queue (snd (locked_enqueue m s)) = q'"
proof (cases "int (length (queue s)) \<ge> QUEUE_MAX_SIZE (config s) \<and> queue s \<noteq> []")
  case False
  then show ?thesis
    by (intro room) (auto simp: locked_enqueue_def)
next
  case True
  then obtain q' where q: "heappop (queue s) = Inr (queue s ! 0, q')"
    using heappop_nonempty [of "queue s"] by blast
  show ?thesis
  proof (cases "messages s (msg_id (item_message (queue s ! 0))) = None")
    case None: True
    show ?thesis
      using True q None by (intro key_error [of q']) (auto simp: locked_enqueue_def Let_def)
  next
    case False
    show ?thesis
      using True q False by (intro evict [of q']) (auto simp: locked_enqueue_def Let_def)
  qed
qed

lemma PriorityItem_ok: "item_priority (PriorityItem m) = - priority (item_message (PriorityItem m))"
  by (simp add: PriorityItem_def)

lemma locked_enqueue_queue_ok:
  assumes ok: "queue_ok s"
  shows "queue_ok (snd (locked_enqueue m s))"
proof (cases rule: locked_enqueue_cases [of s m])
  case room
  then show ?thesis
    using ok by (simp add: queue_ok_def heappush_heap heappush_set PriorityItem_ok)
next
  case (evict q')
  have "is_heap q'" "set q' \<subseteq> set (queue s)"
    using heappop_Inr [OF evict(3)] heappop_set [OF evict(3)] ok by (auto simp: queue_ok_def)
  then show ?thesis
    using ok evict(6) by (auto simp: queue_ok_def heappush_heap heappush_set PriorityItem_ok)
next
  case (key_error q')
  have "is_heap q'" "set q' \<subseteq> set (queue s)"
    using heappop_Inr [OF key_error(3)] heappop_set [OF key_error(3)] ok by (auto simp: queue_ok_def)
  then show ?thesis
    using ok key_error(6) by (auto simp: queue_ok_def)
qed

lemma locked_enqueue_length:
  assumes "1 \<le> QUEUE_MAX_SIZE (config s)" "int (length (queue s)) \<le> QUEUE_MAX_SIZE (config s)"
  shows "int (length (queue (snd (locked_enqueue m s)))) \<le> QUEUE_MAX_SIZE (config s)"
proof (cases rule: locked_enqueue_cases [of s m])
  case room
  then show ?thesis using assms by (auto simp: heappush_length)
next
  case (evict q')
  then show ?thesis using assms heappop_Inr [OF evict(3)] by (simp add: heappush_length)
next
  case (key_error q')
  then show ?thesis using assms heappop_Inr [OF key_error(3)] by simp
qed

text \<open>The rate-limit check of \<open>add_message\<close>, which only messages with an event undergo.\<close>

definition passes_rate_limit :: "real \<Rightarrow> tts_message \<Rightarrow> queue_service \<Rightarrow> bool" where
  "passes_rate_limit now m s =
     (case event m of
        None \<Rightarrow> True
      | Some ev \<Rightarrow> fst (is_allowed now (platform_value (event_platform ev))
                         (rate_limiters s (event_platform ev))))"

text \<open>The four ways \<open>add_message\<close> can end; \<open>s2\<close> is the state after the two checks.\<close>

lemma add_message_cases:
  obtains
    (duplicate) dd where
      "is_duplicate md5 now (msg_text m) (duplicate_detector s) = (True, dd)"
      "add_message md5 now m s = (Returned False, s\<lparr>duplicate_detector := dd\<rparr>)"
  | (limited) s2 where
      "fst (is_duplicate md5 now (msg_text m) (duplicate_detector s)) = False"
      "\<not> passes_rate_limit now m s"
      "add_message md5 now m s = (Returned False, s2)"
      "queue s2 = queue s" "config s2 = config s" "emitted s2 = emitted s"
      "current_message s2 = current_message s" "messages s2 = messages s"
      "duplicate_detector s2 = snd (is_duplicate md5 now (msg_text m) (duplicate_detector s))"
  | (raised) s2 e where
      "fst (is_duplicate md5 now (msg_text m) (duplicate_detector s)) = False"
      "passes_rate_limit now m s"
      "queue s2 = queue s" "config s2 = config s" "emitted s2 = emitted s"
      "current_message s2 = current_message s" "messages s2 = messages s"
      "fst (locked_enqueue m s2) = Raised e"
      "add_message md5 now m s = (Raised e, snd (locked_enqueue m s2))"
  | (queued) s2 where
      "fst (is_duplicate md5 now (msg_text m) (duplicate_detector s)) = False"
      "passes_rate_limit now m s"
      "queue s2 = queue s" "config s2 = config s" "emitted s2 = emitted s"
      "current_message s2 = current_message s" "messages s2 = messages s"
      "fst (locked_enqueue m s2) = Returned ()"
      "add_message md5 now m s =
         (Returned True,
          if current_message s = None
          then send_next (notify_queue_update now (snd (locked_enqueue m s2)))
          else notify_queue_update now (snd (locked_enqueue m s2)))"
proof -
  obtain dup dd where d: "is_duplicate md5 now (msg_text m) (duplicate_detector s) = (dup, dd)"
    by (cases "is_duplicate md5 now (msg_text m) (duplicate_detector s)")
  let ?s1 = "s\<lparr>duplicate_detector := dd\<rparr>"
  show ?thesis
  proof (cases dup)
    case True
    then show ?thesis using d by (intro duplicate [of dd]) (simp_all add: add_message_def)
  next
    case False
    define chk where "chk = (case event m of
        None \<Rightarrow> (True, ?s1)
      | Some ev \<Rightarrow>
          (let platform = event_platform ev;
               (ok, rl) = is_allowed now (platform_value platform) (rate_limiters ?s1 platform)
           in (ok, ?s1\<lparr>rate_limiters := (rate_limiters ?s1)(platform := rl)\<rparr>)))"
    have frame: "queue (snd chk) = queue s" "config (snd chk) = config s"
      "emitted (snd chk) = emitted s" "current_message (snd chk) = current_message s"
      "messages (snd chk) = messages s" "duplicate_detector (snd chk) = dd"
      by (simp_all add: chk_def Let_def case_prod_beta split: option.splits)
    have pass: "fst chk = passes_rate_limit now m s"
      by (simp add: chk_def passes_rate_limit_def Let_def case_prod_beta split: option.splits)
    have add: "add_message md5 now m s =
        (if \<not> fst chk then (Returned False, snd chk)
         else (case locked_enqueue m (snd chk) of
                 (Raised e, s3) \<Rightarrow> (Raised e, s3)
               | (Returned u, s3) \<Rightarrow>
                   (let s4 = notify_queue_update now s3;
                        s5 = (if current_message s4 = None then send_next s4 else s4)
                    in (Returned True, s5))))"
      using d False by (simp add: add_message_def chk_def case_prod_beta Let_def)
    show ?thesis
    proof (cases "fst chk")
      case nok: False
      show ?thesis
        using d False frame add nok pass by (intro limited [of "snd chk"]) simp_all
    next
      case ok: True
      obtain r s3 where l: "locked_enqueue m (snd chk) = (r, s3)"
        by (cases "locked_enqueue m (snd chk)")
      have cur: "current_message s3 = current_message s"
        using locked_enqueue_fields(3) [of m "snd chk"] l frame by simp
      show ?thesis
      proof (cases r)
        case (Raised e)
        show ?thesis
          using d False frame add ok l Raised pass by (intro raised [of "snd chk" e]) simp_all
      next
        case (Returned u)
        show ?thesis
          using d False frame add ok l Returned cur pass
          by (intro queued [of "snd chk"]) (simp_all add: Let_def)
      qed
    qed
  qed
qed

definition service_inv :: "queue_service \<Rightarrow> bool" where
  "service_inv s \<longleftrightarrow> 1 \<le> QUEUE_MAX_SIZE (config s) \<and> queue_ok s \<and> within_bound s"

lemma send_next_inv: "service_inv s \<Longrightarrow> service_inv (send_next s)"
  using get_next_queue_ok [of s] get_next_length [of s] send_next_emitted [of s]
  by (auto simp: service_inv_def queue_ok_def within_bound_def)

lemma notify_inv: "service_inv s \<Longrightarrow> service_inv (notify_queue_update now s)"
  using notify_emitted [of now s]
  by (auto simp: service_inv_def queue_ok_def within_bound_def)

lemma get_next_inv: "service_inv s \<Longrightarrow> service_inv (snd (get_next s))"
  using get_next_queue_ok [of s] get_next_length [of s]
  by (auto simp: service_inv_def queue_ok_def within_bound_def)

lemma get_queue_status_inv: "service_inv s \<Longrightarrow> service_inv (snd (get_queue_status now s))"
  by (auto simp: service_inv_def queue_ok_def within_bound_def)

lemma locked_enqueue_inv: "service_inv s \<Longrightarrow> service_inv (snd (locked_enqueue m s))"
  using locked_enqueue_queue_ok [of s m] locked_enqueue_length [of s m]
  by (auto simp: service_inv_def within_bound_def)

lemma service_inv_cong:
  "queue s' = queue s \<Longrightarrow> config s' = config s \<Longrightarrow> emitted s' = emitted s \<Longrightarrow>
   service_inv s' = service_inv s"
  by (simp add: service_inv_def queue_ok_def within_bound_def)

lemma add_message_inv:
  assumes "service_inv s"
  shows "service_inv (snd (add_message md5 now m s))"
proof (cases rule: add_message_cases [of md5 now m s])
  case (duplicate dd)
  then show ?thesis using assms service_inv_cong [of "s\<lparr>duplicate_detector := dd\<rparr>" s] by simp
next
  case (limited s2)
  then show ?thesis using assms service_inv_cong [of s2 s] by simp
next
  case (raised s2 e)
  then have "service_inv s2" using assms service_inv_cong [of s2 s] by simp
  then show ?thesis using raised(9) locked_enqueue_inv by simp
next
  case (queued s2)
  then have "service_inv s2" using assms service_inv_cong [of s2 s] by simp
  then have "service_inv (notify_queue_update now (snd (locked_enqueue m s2)))"
    by (intro notify_inv locked_enqueue_inv)
  then show ?thesis using queued(9) send_next_inv by simp
qed

lemma mark_complete_inv: "service_inv s \<Longrightarrow> service_inv (mark_complete i s)"
proof -
  assume a: "service_inv s"
  have "service_inv (s\<lparr>current_message := None\<rparr>)"
    using a service_inv_cong [of "s\<lparr>current_message := None\<rparr>" s] by simp
  then show ?thesis
    using a by (auto simp: mark_complete_def Let_def intro: send_next_inv split: option.splits)
qed

lemma skip_current_inv: "service_inv s \<Longrightarrow> service_inv (skip_current s)"
proof -
  assume a: "service_inv s"
  have "service_inv (emit Skip_event (s\<lparr>current_message := None\<rparr>))"
    "service_inv (emit Skip_event s)"
    using a by (auto simp: service_inv_def queue_ok_def within_bound_def emit_def)
  then show ?thesis
    by (auto simp: skip_current_def Let_def intro: send_next_inv)
qed

lemma clear_queue_inv: "service_inv s \<Longrightarrow> service_inv (clear_queue now s)"
proof -
  assume a: "service_inv s"
  have "service_inv (s\<lparr>queue := [], messages := Map.empty\<rparr>)"
    using a by (auto simp: service_inv_def queue_ok_def within_bound_def is_heap_def)
  then show ?thesis
    by (simp add: clear_queue_def notify_inv)
qed

lemma apply_operation_inv: "service_inv s \<Longrightarrow> service_inv (apply_operation md5 timed s)"
  by (cases "snd timed")
     (simp_all add: apply_operation_def add_message_inv get_next_inv mark_complete_inv
        skip_current_inv clear_queue_inv get_queue_status_inv)

lemma QueueService_inv: "1 \<le> QUEUE_MAX_SIZE cfg \<Longrightarrow> service_inv (QueueService cfg)"
  by (simp add: service_inv_def queue_ok_def within_bound_def QueueService_def is_heap_def)

lemma foldl_inv:
  "service_inv s \<Longrightarrow> service_inv (foldl (\<lambda>s timed. apply_operation md5 timed s) s ops)"
  by (induction ops arbitrary: s) (simp_all add: apply_operation_inv)

lemma run_inv: "1 \<le> QUEUE_MAX_SIZE cfg \<Longrightarrow> service_inv (run md5 cfg ops)"
  by (simp add: run_def foldl_inv QueueService_inv)

lemma apply_operation_config [simp]: "config (apply_operation md5 timed s) = config s"
proof (cases "snd timed")
  case (Add_message m)
  have "config (snd (add_message md5 (fst timed) m s)) = config s"
    by (cases rule: add_message_cases [of md5 "fst timed" m s]) simp_all
  then show ?thesis using Add_message by (simp add: apply_operation_def)
qed (simp_all add: apply_operation_def mark_complete_def skip_current_def clear_queue_def emit_def
      Let_def split: option.splits)

lemma run_config [simp]: "config (run md5 cfg ops) = cfg"
proof -
  have "config (foldl (\<lambda>s timed. apply_operation md5 timed s) s ops) = config s" for s
    by (induction ops arbitrary: s) simp_all
  then show ?thesis by (simp add: run_def QueueService_def)
qed

lemma queue_ok_cong: "queue s' = queue s \<Longrightarrow> queue_ok s' = queue_ok s"
  by (simp add: queue_ok_def)

lemma add_message_queue_ok:
  assumes "queue_ok s"
  shows "queue_ok (snd (add_message md5 now m s))"
proof (cases rule: add_message_cases [of md5 now m s])
  case (duplicate dd)
  then show ?thesis using assms queue_ok_cong [of "s\<lparr>duplicate_detector := dd\<rparr>" s] by simp
next
  case (limited s2)
  then show ?thesis using assms queue_ok_cong [of s2 s] by simp
next
  case (raised s2 e)
  then have "queue_ok s2" using assms queue_ok_cong [of s2 s] by simp
  then show ?thesis using raised(9) locked_enqueue_queue_ok by simp
next
  case (queued s2)
  then have "queue_ok s2" using assms queue_ok_cong [of s2 s] by simp
  then have a: "queue_ok (snd (locked_enqueue m s2))"
    by (rule locked_enqueue_queue_ok)
  have b: "queue_ok (notify_queue_update now (snd (locked_enqueue m s2)))"
    using a queue_ok_cong [of "notify_queue_update now (snd (locked_enqueue m s2))"
        "snd (locked_enqueue m s2)"] by simp
  have "queue_ok (send_next (notify_queue_update now (snd (locked_enqueue m s2))))"
    using get_next_queue_ok [OF b]
      queue_ok_cong [of "send_next (notify_queue_update now (snd (locked_enqueue m s2)))"
        "snd (get_next (notify_queue_update now (snd (locked_enqueue m s2))))"] by simp
  then show ?thesis using queued(9) b by simp
qed

lemma send_next_queue_ok: "queue_ok s \<Longrightarrow> queue_ok (send_next s)"
  using get_next_queue_ok [of s] queue_ok_cong [of "send_next s" "snd (get_next s)"] by simp

lemma apply_operation_queue_ok: "queue_ok s \<Longrightarrow> queue_ok (apply_operation md5 timed s)"
proof (cases "snd timed")
  case (Add_message m)
  assume "queue_ok s"
  then show ?thesis using Add_message by (simp add: apply_operation_def add_message_queue_ok)
next
  case Get_next
  assume "queue_ok s"
  then show ?thesis using Get_next by (simp add: apply_operation_def get_next_queue_ok)
next
  case (Mark_complete i)
  assume a: "queue_ok s"
  have "queue_ok (s\<lparr>current_message := None\<rparr>)"
    using a by (simp add: queue_ok_def)
  then show ?thesis using a Mark_complete
    by (auto simp: apply_operation_def mark_complete_def Let_def intro: send_next_queue_ok
        split: option.splits)
next
  case Skip_current
  assume a: "queue_ok s"
  have "queue_ok (emit Skip_event (s\<lparr>current_message := None\<rparr>))" "queue_ok (emit Skip_event s)"
    using a by (simp_all add: queue_ok_def emit_def)
  then show ?thesis using Skip_current
    by (auto simp: apply_operation_def skip_current_def Let_def intro: send_next_queue_ok)
next
  case Clear_queue
  have "queue_ok (clear_queue (fst timed) s)"
    by (simp add: clear_queue_def queue_ok_def is_heap_def)
  then show ?thesis using Clear_queue by (simp add: apply_operation_def)
next
  case Get_queue_status
  assume "queue_ok s"
  then show ?thesis using Get_queue_status by (simp add: apply_operation_def queue_ok_def)
qed

lemma run_queue_ok: "queue_ok (run md5 cfg ops)"
proof -
  have "queue_ok s \<Longrightarrow> queue_ok (foldl (\<lambda>s timed. apply_operation md5 timed s) s ops)" for s
    by (induction ops arbitrary: s) (simp_all add: apply_operation_queue_ok)
  moreover have "queue_ok (QueueService cfg)"
    by (simp add: queue_ok_def QueueService_def is_heap_def)
  ultimately show ?thesis by (simp add: run_def)
qed

lemma queue_ok_root_highest:
  assumes "queue_ok s" "x \<in> set (queue s)"
  shows "priority (item_message x) \<le> priority (item_message (queue s ! 0))"
proof -
  obtain i where i: "i < length (queue s)" "queue s ! i = x"
    using assms(2) by (auto simp: in_set_conv_nth)
  have "item_priority (queue s ! 0) \<le> item_priority x"
    using is_heap_root_min [of "queue s" i] assms(1) i by (simp add: queue_ok_def)
  moreover have "queue s ! 0 \<in> set (queue s)"
    using i by (cases "queue s") auto
  ultimately show ?thesis
    using assms by (simp add: queue_ok_def)
qed

subsection \<open>Example data\<close>

text \<open>The MD5 hex digests of the texts used in the examples; any other text maps to itself.\<close>

definition example_md5 :: "pystr \<Rightarrow> pystr" where
  "example_md5 t =
     (if t = str ''z'' then str ''fbade9e36a3f36d3d676c1b808451dd7''
      else if t = str ''a'' then str ''0cc175b9c0f1b6a831c399e269772661''
      else if t = str ''b'' then str ''92eb5ffee6ae2fec3ad71c777531578f''
      else if t = str ''c'' then str ''4a8a08f09d37b73795649038408b5f33''
      else t)"

definition example_config :: "int \<Rightarrow> queue_config" where
  "example_config bound =
     \<lparr>QUEUE_MAX_SIZE = bound, QUEUE_DUPLICATE_WINDOW = 5, RATE_LIMIT_TWITCH = 1,
      RATE_LIMIT_YOUTUBE = 30\<rparr>"

text \<open>A message without an event, named by its text, with a synthesised audio file.\<close>

definition example_message :: "string \<Rightarrow> int \<Rightarrow> tts_message" where
  "example_message name p =
     \<lparr>msg_id = str name, msg_text = str name, display_text = str name, priority = p,
      event = None, audio_path = Some (str ''/app/data/audio_cache/0123456789abcdef.wav''),
      created_at = 0\<rparr>"

lemmas queue_eval =
  run_def apply_operation_def add_message_def is_duplicate_def QueueService_def
  DuplicateDetector_def RateLimiter_def locked_enqueue_def notify_queue_update_def
  get_queue_status_def get_remaining_def is_allowed_def emit_def send_next_def get_next_def
  heappop_def heappush_def siftdown_def siftup_def siftdown_loop.simps siftup_loop.simps
  PriorityItem_def item_lt_def last_segment_def str_def mark_complete_def skip_current_def
  clear_queue_def platform_value_def Let_def example_md5_def example_config_def
  example_message_def

subsection \<open>The bound of the queue\<close>

text \<open>
  Claim C6, as amended. When the configured bound is at least 1, then after every sequence of
  operations on a freshly constructed service (offers, polls, completions, skips, clears and
  status queries, each at any clock reading) the queue holds at most \<open>QUEUE_MAX_SIZE\<close> items,
  and every \<open>queue_update\<close> event that was emitted on the way reports a size that is at most
  the maximum it reports.
\<close>

theorem queue_within_bound:
  assumes "1 \<le> QUEUE_MAX_SIZE cfg"
  shows "int (length (queue (run md5 cfg ops))) \<le> QUEUE_MAX_SIZE cfg \<and>
         (\<forall>n mx c t y. Queue_update n mx c t y \<in> set (emitted (run md5 cfg ops)) \<longrightarrow>
            int n \<le> mx)"
proof -
  have "service_inv (run md5 cfg ops)"
    using assms by (rule run_inv)
  then show ?thesis
    by (simp add: service_inv_def within_bound_def)
qed

theorem queue_within_bound_witness:
  "1 \<le> QUEUE_MAX_SIZE (example_config 2) \<and>
   int (length (queue (run example_md5 (example_config 2)
     [(0, Add_message (example_message ''a'' 1)), (1, Add_message (example_message ''b'' 3)),
      (2, Add_message (example_message ''c'' 2))]))) \<le> QUEUE_MAX_SIZE (example_config 2) \<and>
   Queue_update 1 2 None 1 30 \<in> set (emitted (run example_md5 (example_config 2)
     [(0, Add_message (example_message ''a'' 1)), (1, Add_message (example_message ''b'' 3)),
      (2, Add_message (example_message ''c'' 2))])) \<and>
   int 1 \<le> (2::int)"
proof -
  have b: "1 \<le> QUEUE_MAX_SIZE (example_config 2)"
    by (simp add: example_config_def)
  have e: "Queue_update 1 2 None 1 30 \<in> set (emitted (run example_md5 (example_config 2)
     [(0, Add_message (example_message ''a'' 1)), (1, Add_message (example_message ''b'' 3)),
      (2, Add_message (example_message ''c'' 2))]))"
    by (simp add: queue_eval)
  show ?thesis
    using b e queue_within_bound [OF b, of example_md5
      "[(0, Add_message (example_message ''a'' 1)), (1, Add_message (example_message ''b'' 3)),
        (2, Add_message (example_message ''c'' 2))]"]
    by simp
qed

text \<open>
  The claim as stated fails for the bound 0, which the configuration accepts: the guard
  \<open>if self._queue\<close> skips the eviction on an empty queue and the message is pushed all the
  same. With a message in flight the queue then holds one item.
\<close>

theorem queue_exceeds_bound_zero:
  "\<not> int (length (queue (run example_md5 (example_config 0)
      [(0, Add_message (example_message ''a'' 1)), (1, Add_message (example_message ''b'' 1))])))
     \<le> QUEUE_MAX_SIZE (example_config 0)"
  by (simp add: queue_eval)

subsection \<open>Skipping while idle\<close>

lemma skip_current_idle:
  "current_message s = None \<Longrightarrow> skip_current s = send_next (emit Skip_event s)"
  by (simp add: skip_current_def)

lemma send_next_empty: "queue s = [] \<Longrightarrow> send_next s = s"
  by (simp add: send_next_def get_next_empty)

lemma send_next_emitted_audio:
  assumes "queue s \<noteq> []" "audio_path (item_message (queue s ! 0)) = Some path" "path \<noteq> []"
  shows "emitted (send_next s) =
     emitted s @ [Tts_ready (msg_id (item_message (queue s ! 0)))
       (py_replace (str ''.wav'') [] (last_segment path))
       (if display_text (item_message (queue s ! 0)) \<noteq> []
        then display_text (item_message (queue s ! 0)) else msg_text (item_message (queue s ! 0)))
       (map_option event_kind (event (item_message (queue s ! 0))))
       (map_option event_platform (event (item_message (queue s ! 0))))]"
proof -
  obtain q' where "heappop (queue s) = Inr (queue s ! 0, q')"
    using heappop_nonempty [OF assms(1)] by blast
  then show ?thesis
    using assms by (simp add: send_next_def get_next_def emit_def Let_def)
qed

lemma send_next_emitted_no_audio:
  assumes "audio_path (item_message (queue s ! 0)) = None \<or>
           audio_path (item_message (queue s ! 0)) = Some []"
  shows "emitted (send_next s) = emitted s"
proof (cases "queue s = []")
  case True
  then show ?thesis by (simp add: send_next_empty)
next
  case False
  obtain q' where "heappop (queue s) = Inr (queue s ! 0, q')"
    using heappop_nonempty [OF False] by blast
  then show ?thesis
    using assms False by (auto simp: send_next_def get_next_def emit_def Let_def)
qed

text \<open>
  Claim C9. Let the queue of the service be a heap of items built by \<open>PriorityItem\<close>
  (\<open>queue_ok\<close>, which every run of operations maintains), with no message in flight. Then \<open>skip_current\<close> is not a no-op: a \<open>skip\<close> event is emitted. If the
  queue is empty nothing else changes. If it is not empty, the message at the root of the heap
  is removed from the queue and becomes the current message; no queued message has a higher
  priority; and when that message has an audio path, \<open>tts_ready\<close> for it is emitted right
  after the \<open>skip\<close> event (without an audio path it becomes current and nothing more is sent).
\<close>

theorem skip_while_idle_dispatches_next:
  assumes "queue_ok s" and "current_message s = None"
  shows "(queue s = [] \<longrightarrow> skip_current s = s\<lparr>emitted := emitted s @ [Skip_event]\<rparr>) \<and>
         (queue s \<noteq> [] \<longrightarrow>
            (let m = item_message (queue s ! 0); s' = skip_current s in
             current_message s' = Some m \<and>
             (\<forall>x \<in> set (queue s). priority (item_message x) \<le> priority m) \<and>
             mset (queue s) = add_mset (queue s ! 0) (mset (queue s')) \<and>
             (\<forall>path. audio_path m = Some path \<and> path \<noteq> [] \<longrightarrow>
                emitted s' = emitted s @
                  [Skip_event,
                   Tts_ready (msg_id m) (py_replace (str ''.wav'') [] (last_segment path))
                     (if display_text m \<noteq> [] then display_text m else msg_text m)
                     (map_option event_kind (event m)) (map_option event_platform (event m))]) \<and>
             (audio_path m = None \<or> audio_path m = Some [] \<longrightarrow>
                emitted s' = emitted s @ [Skip_event])))"
proof (intro conjI impI)
  assume "queue s = []"
  then show "skip_current s = s\<lparr>emitted := emitted s @ [Skip_event]\<rparr>"
    using assms(2) by (simp add: skip_current_idle send_next_empty emit_def)
next
  assume ne: "queue s \<noteq> []"
  let ?e = "emit Skip_event s"
  have q: "queue ?e = queue s" "emitted ?e = emitted s @ [Skip_event]"
    by (simp_all add: emit_def)
  have ne': "queue ?e \<noteq> []" using ne q by simp
  obtain q' where pop: "heappop (queue ?e) = Inr (queue ?e ! 0, q')"
    and nxt: "queue (snd (get_next ?e)) = q'"
      "current_message (snd (get_next ?e)) = Some (item_message (queue ?e ! 0))"
    using get_next_nonempty [OF ne'] by blast
  have ok: "queue_ok s" using assms(1) .
  have cur: "current_message (skip_current s) = Some (item_message (queue s ! 0))"
    using assms(2) nxt q by (simp add: skip_current_idle)
  have high: "\<forall>x \<in> set (queue s). priority (item_message x) \<le> priority (item_message (queue s ! 0))"
    using queue_ok_root_highest [OF ok] by blast
  have ms: "mset (queue s) = add_mset (queue s ! 0) (mset (queue (skip_current s)))"
    using heappop_Inr [OF pop] nxt q assms(2) by (simp add: skip_current_idle)
  have a: "\<forall>path. audio_path (item_message (queue s ! 0)) = Some path \<and> path \<noteq> [] \<longrightarrow>
      emitted (skip_current s) = emitted s @
        [Skip_event,
         Tts_ready (msg_id (item_message (queue s ! 0)))
           (py_replace (str ''.wav'') [] (last_segment path))
           (if display_text (item_message (queue s ! 0)) \<noteq> []
            then display_text (item_message (queue s ! 0))
            else msg_text (item_message (queue s ! 0)))
           (map_option event_kind (event (item_message (queue s ! 0))))
           (map_option event_platform (event (item_message (queue s ! 0))))]"
    using send_next_emitted_audio [of ?e] ne' q assms(2) by (simp add: skip_current_idle)
  have b: "audio_path (item_message (queue s ! 0)) = None \<or>
      audio_path (item_message (queue s ! 0)) = Some [] \<longrightarrow>
      emitted (skip_current s) = emitted s @ [Skip_event]"
    using send_next_emitted_no_audio [of ?e] q assms(2) by (simp add: skip_current_idle)
  show "let m = item_message (queue s ! 0); s' = skip_current s in
     current_message s' = Some m \<and>
     (\<forall>x \<in> set (queue s). priority (item_message x) \<le> priority m) \<and>
     mset (queue s) = add_mset (queue s ! 0) (mset (queue s')) \<and>
     (\<forall>path. audio_path m = Some path \<and> path \<noteq> [] \<longrightarrow>
        emitted s' = emitted s @
          [Skip_event,
           Tts_ready (msg_id m) (py_replace (str ''.wav'') [] (last_segment path))
             (if display_text m \<noteq> [] then display_text m else msg_text m)
             (map_option event_kind (event m)) (map_option event_platform (event m))]) \<and>
     (audio_path m = None \<or> audio_path m = Some [] \<longrightarrow> emitted s' = emitted s @ [Skip_event])"
    unfolding Let_def using cur high ms a b by blast
qed


text \<open>An idle service whose queue holds a message of priority 3 and one of priority 1.\<close>

definition example_idle :: queue_service where
  "example_idle =
     (QueueService (example_config 2))
       \<lparr>queue := [PriorityItem (example_message ''b'' 3), PriorityItem (example_message ''a'' 1)]\<rparr>"

theorem skip_while_idle_dispatches_next_witness:
  "queue_ok example_idle \<and> current_message example_idle = None \<and> queue example_idle \<noteq> [] \<and>
   current_message (skip_current example_idle) = Some (example_message ''b'' 3) \<and>
   priority (example_message ''a'' 1) \<le> priority (example_message ''b'' 3) \<and>
   map (msg_id \<circ> item_message) (queue (skip_current example_idle)) = [str ''a''] \<and>
   emitted (skip_current example_idle) =
     [Skip_event, Tts_ready (str ''b'') (str ''0123456789abcdef'') (str ''b'') None None]"
proof -
  have ok: "queue_ok example_idle"
    by (auto simp: queue_ok_def is_heap_def example_idle_def QueueService_def PriorityItem_def
        example_message_def less_Suc_eq)
  have idle: "current_message example_idle = None"
    by (simp add: example_idle_def QueueService_def)
  have ne: "queue example_idle \<noteq> []"
    by (simp add: example_idle_def)
  have root: "item_message (queue example_idle ! 0) = example_message ''b'' 3"
    by (simp add: example_idle_def PriorityItem_def)
  have audio: "audio_path (example_message ''b'' 3) =
      Some (str ''/app/data/audio_cache/0123456789abcdef.wav'')"
    by (simp add: example_message_def)
  have seg: "py_replace (str ''.wav'') [] (last_segment (str ''/app/data/audio_cache/0123456789abcdef.wav''))
      = str ''0123456789abcdef''"
    by (simp add: last_segment_def str_def)
  have fields: "msg_id (example_message ''b'' 3) = str ''b''"
    "display_text (example_message ''b'' 3) = str ''b''" "event (example_message ''b'' 3) = None"
    "emitted example_idle = []" "str ''b'' \<noteq> []"
    "str ''/app/data/audio_cache/0123456789abcdef.wav'' \<noteq> []"
    by (simp_all add: example_message_def example_idle_def QueueService_def str_def)
  have rest: "map (msg_id \<circ> item_message) (queue (skip_current example_idle)) = [str ''a'']"
    by (simp add: example_idle_def queue_eval)
  show ?thesis
    using skip_while_idle_dispatches_next [OF ok idle] ok idle ne root audio seg fields rest
    by (simp add: Let_def example_message_def)
qed

subsection \<open>A full queue\<close>

text \<open>
  Claim C1, as amended. When the queue is full, \<open>add_message\<close> does not compare priorities
  and never rejects the new message for its priority: a message that passes the duplicate and
  rate checks is never answered with \<open>False\<close>. Provided the item at the head of the queue's
  array is registered in the message table, the block under the queue lock completes, it
  removes one queued item and inserts the new one, so the size stays the same, and a message
  that passes the duplicate and rate checks is answered with \<open>True\<close>. In scenario S5
  (bound 2, offers of priorities 1, 3, 2 to a fresh service) the queue afterwards holds exactly
  the messages of priorities 3 and 2; the message of priority 1 is not evicted but was
  dispatched as the current message when it arrived.
\<close>

theorem full_queue_evicts_and_inserts:
  "(int (length (queue s)) \<ge> QUEUE_MAX_SIZE (config s) \<and> queue s \<noteq> [] \<and>
    messages s (msg_id (item_message (queue s ! 0))) \<noteq> None \<longrightarrow>
      fst (locked_enqueue m s) = Returned () \<and>
      (\<exists>removed \<in> set (queue s).
         mset (queue (snd (locked_enqueue m s))) =
           add_mset (PriorityItem m) (mset (queue s) - {#removed#})) \<and>
      length (queue (snd (locked_enqueue m s))) = length (queue s) \<and>
      (fst (is_duplicate md5 now (msg_text m) (duplicate_detector s)) = False \<and>
       passes_rate_limit now m s \<longrightarrow> fst (add_message md5 now m s) = Returned True)) \<and>
   (fst (is_duplicate md5 now (msg_text m) (duplicate_detector s)) = False \<and>
    passes_rate_limit now m s \<longrightarrow> fst (add_message md5 now m s) \<noteq> Returned False) \<and>
   map (priority \<circ> item_message) (queue (run example_md5 (example_config 2)
     [(0, Add_message (example_message ''a'' 1)), (1, Add_message (example_message ''b'' 3)),
      (2, Add_message (example_message ''c'' 2))])) = [3, 2] \<and>
   current_message (run example_md5 (example_config 2)
     [(0, Add_message (example_message ''a'' 1)), (1, Add_message (example_message ''b'' 3)),
      (2, Add_message (example_message ''c'' 2))]) = Some (example_message ''a'' 1)"
proof (intro conjI impI)
  assume full: "int (length (queue s)) \<ge> QUEUE_MAX_SIZE (config s) \<and> queue s \<noteq> [] \<and>
    messages s (msg_id (item_message (queue s ! 0))) \<noteq> None"
  then have root: "queue s ! 0 \<in> set (queue s)"
    by (cases "queue s") auto
  have enq: "fst (locked_enqueue m s') = Returned () \<and>
      mset (queue (snd (locked_enqueue m s'))) =
        add_mset (PriorityItem m) (mset (queue s) - {#queue s ! 0#}) \<and>
      length (queue (snd (locked_enqueue m s'))) = length (queue s)"
    if same: "queue s' = queue s" "config s' = config s" "messages s' = messages s" for s'
  proof (cases rule: locked_enqueue_cases [of s' m])
    case room
    then show ?thesis using full same by simp
  next
    case (evict q')
    have "mset (queue s) = add_mset (queue s ! 0) (mset q')" "length q' = length (queue s) - 1"
      using heappop_Inr [OF evict(3)] same by simp_all
    then show ?thesis
      using evict(5,6) full by (simp add: heappush_mset heappush_length)
  next
    case (key_error q')
    then show ?thesis using full same by simp
  qed
  show "fst (locked_enqueue m s) = Returned ()"
    "length (queue (snd (locked_enqueue m s))) = length (queue s)"
    using enq [of s] by simp_all
  show "\<exists>removed \<in> set (queue s). mset (queue (snd (locked_enqueue m s))) =
      add_mset (PriorityItem m) (mset (queue s) - {#removed#})"
    using enq [of s] root by blast
  assume pass: "fst (is_duplicate md5 now (msg_text m) (duplicate_detector s)) = False \<and>
    passes_rate_limit now m s"
  show "fst (add_message md5 now m s) = Returned True"
  proof (cases rule: add_message_cases [of md5 now m s])
    case (duplicate dd)
    then show ?thesis using pass by simp
  next
    case (limited s2)
    then show ?thesis using pass by simp
  next
    case (raised s2 e)
    then show ?thesis using enq [of s2] by simp
  next
    case (queued s2)
    then show ?thesis by simp
  qed
next
  assume pass: "fst (is_duplicate md5 now (msg_text m) (duplicate_detector s)) = False \<and>
    passes_rate_limit now m s"
  show "fst (add_message md5 now m s) \<noteq> Returned False"
  proof (cases rule: add_message_cases [of md5 now m s])
    case (duplicate dd)
    then show ?thesis using pass by simp
  next
    case (limited s2)
    then show ?thesis using pass by simp
  next
    case (raised s2 e)
    then show ?thesis by simp
  next
    case (queued s2)
    then show ?thesis by simp
  qed
next
  show "map (priority \<circ> item_message) (queue (run example_md5 (example_config 2)
     [(0, Add_message (example_message ''a'' 1)), (1, Add_message (example_message ''b'' 3)),
      (2, Add_message (example_message ''c'' 2))])) = [3, 2]"
    by (simp add: queue_eval)
next
  show "current_message (run example_md5 (example_config 2)
     [(0, Add_message (example_message ''a'' 1)), (1, Add_message (example_message ''b'' 3)),
      (2, Add_message (example_message ''c'' 2))]) = Some (example_message ''a'' 1)"
    by (simp add: queue_eval)
qed

text \<open>
  A full queue of two messages of priority 1, with a message in flight: the service after the
  offers \<open>z\<close>, \<open>a\<close>, \<open>b\<close>.
\<close>

definition example_full :: queue_service where
  "example_full = run example_md5 (example_config 2)
     [(0, Add_message (example_message ''z'' 0)), (1, Add_message (example_message ''a'' 1)),
      (2, Add_message (example_message ''b'' 1))]"

lemma example_full_state:
  "queue example_full = [PriorityItem (example_message ''a'' 1), PriorityItem (example_message ''b'' 1)]"
  "messages example_full (str ''a'') = Some (example_message ''a'' 1)"
  "messages example_full (str ''b'') = Some (example_message ''b'' 1)"
  "config example_full = example_config 2"
  "current_message example_full = Some (example_message ''z'' 0)"
  by (simp_all add: example_full_def queue_eval)


theorem full_queue_evicts_and_inserts_witness:
  "int (length (queue example_full)) \<ge> QUEUE_MAX_SIZE (config example_full) \<and>
   queue example_full \<noteq> [] \<and>
   queue example_full ! 0 = PriorityItem (example_message ''a'' 1) \<and>
   messages example_full (msg_id (item_message (queue example_full ! 0))) \<noteq> None \<and>
   fst (is_duplicate example_md5 3 (msg_text (example_message ''c'' 1))
          (duplicate_detector example_full)) = False \<and>
   passes_rate_limit 3 (example_message ''c'' 1) example_full \<and>
   fst (locked_enqueue (example_message ''c'' 1) example_full) = Returned () \<and>
   length (queue (snd (locked_enqueue (example_message ''c'' 1) example_full))) =
     length (queue example_full) \<and>
   fst (add_message example_md5 3 (example_message ''c'' 1) example_full) = Returned True \<and>
   fst (add_message example_md5 3 (example_message ''c'' 1) example_full) \<noteq> Returned False"
proof -
  have full: "int (length (queue example_full)) \<ge> QUEUE_MAX_SIZE (config example_full)"
    "queue example_full \<noteq> []"
    by (simp_all add: example_full_state example_config_def)
  have head: "queue example_full ! 0 = PriorityItem (example_message ''a'' 1)"
    by (simp add: example_full_state)
  have reg: "messages example_full (msg_id (item_message (queue example_full ! 0))) \<noteq> None"
    by (simp add: example_full_state PriorityItem_def example_message_def)
  have fresh: "fst (is_duplicate example_md5 3 (msg_text (example_message ''c'' 1))
      (duplicate_detector example_full)) = False"
    by (simp add: example_full_def queue_eval)
  have pass: "passes_rate_limit 3 (example_message ''c'' 1) example_full"
    by (simp add: passes_rate_limit_def example_message_def)
  show ?thesis
    using full_queue_evicts_and_inserts [of example_full "example_message ''c'' 1" example_md5 3]
      full head reg fresh pass
    by simp
qed

text \<open>
  The claim as stated fails twice. Offered to the full queue of two messages of priority 1, a
  third message of priority 1 is not rejected: it is queued and the older message \<open>a\<close> is
  dropped. And in scenario S5 with a message in flight (offers of priorities 1, 3, 2 after a
  first message that is being played) the message that leaves the queue is the one of
  priority 3, not the one of priority 1.
\<close>

theorem full_queue_ignores_priorities:
  "int (length (queue example_full)) = QUEUE_MAX_SIZE (config example_full) \<and>
   map (priority \<circ> item_message) (queue example_full) = [1, 1] \<and>
   fst (add_message example_md5 3 (example_message ''c'' 1) example_full) = Returned True \<and>
   map (msg_id \<circ> item_message)
     (queue (snd (add_message example_md5 3 (example_message ''c'' 1) example_full))) =
     [str ''b'', str ''c''] \<and>
   map (priority \<circ> item_message) (queue (run example_md5 (example_config 2)
     [(0, Add_message (example_message ''z'' 0)), (1, Add_message (example_message ''a'' 1)),
      (2, Add_message (example_message ''b'' 3)), (3, Add_message (example_message ''c'' 2))])) =
     [2, 1]"
  by (simp add: example_full_def queue_eval)

subsection \<open>A stale completion\<close>

text \<open>
  Claim C2, evaluated on the program. The service holds \<open>z\<close> as the current message and \<open>a\<close>
  in the queue. A \<open>play_complete\<close> that carries another identifier leaves \<open>z\<close> uncleared, as the
  guard of \<open>mark_complete\<close> intends, but \<open>_send_next\<close> runs all the same: \<open>a\<close> is dequeued,
  replaces \<open>z\<close> as the current message and is sent to the clients.
\<close>

definition example_pending :: queue_service where
  "example_pending = run example_md5 (example_config 2)
     [(0, Add_message (example_message ''z'' 0)), (1, Add_message (example_message ''a'' 1))]"

theorem stale_play_complete_advances:
  "current_message example_pending = Some (example_message ''z'' 0) \<and>
   map (msg_id \<circ> item_message) (queue example_pending) = [str ''a''] \<and>
   current_message (mark_complete (str ''other'') example_pending) = Some (example_message ''a'' 1) \<and>
   queue (mark_complete (str ''other'') example_pending) = [] \<and>
   emitted (mark_complete (str ''other'') example_pending) =
     emitted example_pending @
       [Tts_ready (str ''a'') (str ''0123456789abcdef'') (str ''a'') None None]"
  by (simp add: example_pending_def queue_eval)

subsection \<open>Duplicate detection before the rate limit\<close>

lemma is_duplicate_first:
  assumes "fst (is_duplicate md5 now txt dd) = False"
  shows "seen (snd (is_duplicate md5 now txt dd)) (md5 txt) = Some now"
    "dd_window (snd (is_duplicate md5 now txt dd)) = dd_window dd"
  using assms by (auto simp: is_duplicate_def Let_def split: if_splits)

lemma is_duplicate_again:
  assumes "seen dd (md5 txt) = Some t1" "t2 - t1 < dd_window dd"
  shows "fst (is_duplicate md5 t2 txt dd) = True"
  using assms by (simp add: is_duplicate_def Let_def)

text \<open>
  Claim C10. Let a message with an event be offered at time \<open>t1\<close>, let the duplicate detector
  not know its text, and let the rate limiter of its platform deny it. Then \<open>add_message\<close>
  answers \<open>False\<close>, and the detector has recorded the digest of the text at \<open>t1\<close> all the same.
  Any message with the same text that is offered within the duplicate window after \<open>t1\<close> is
  then rejected as a duplicate, in every state that holds this detector, whatever its rate
  limiters allow; that second rejection consults no rate limiter and changes no queue.
\<close>

theorem rate_limited_message_registers_text:
  assumes first: "fst (is_duplicate md5 t1 (msg_text m) (duplicate_detector s)) = False"
    and denied: "event m \<noteq> None" "\<not> passes_rate_limit t1 m s"
    and s1: "s1 = snd (add_message md5 t1 m s)"
    and again: "msg_text m' = msg_text m" "t2 - t1 < dd_window (duplicate_detector s)"
    and later: "duplicate_detector s2 = duplicate_detector s1"
  shows "fst (add_message md5 t1 m s) = Returned False \<and>
         queue s1 = queue s \<and>
         seen (duplicate_detector s1) (md5 (msg_text m)) = Some t1 \<and>
         fst (is_duplicate md5 t2 (msg_text m') (duplicate_detector s2)) = True \<and>
         fst (add_message md5 t2 m' s2) = Returned False \<and>
         rate_limiters (snd (add_message md5 t2 m' s2)) = rate_limiters s2 \<and>
         queue (snd (add_message md5 t2 m' s2)) = queue s2"
proof -
  have one: "fst (add_message md5 t1 m s) = Returned False \<and> queue s1 = queue s \<and>
      duplicate_detector s1 = snd (is_duplicate md5 t1 (msg_text m) (duplicate_detector s))"
  proof (cases rule: add_message_cases [of md5 t1 m s])
    case (duplicate dd)
    then show ?thesis using first by simp
  next
    case (limited s2)
    then show ?thesis using s1 by simp
  next
    case (raised s2 e)
    then show ?thesis using denied by simp
  next
    case (queued s2)
    then show ?thesis using denied by simp
  qed
  have rec: "seen (duplicate_detector s2) (md5 (msg_text m')) = Some t1"
    "dd_window (duplicate_detector s2) = dd_window (duplicate_detector s)"
    using one is_duplicate_first [OF first] later again(1) by simp_all
  have dup: "fst (is_duplicate md5 t2 (msg_text m') (duplicate_detector s2)) = True"
    using is_duplicate_again [of "duplicate_detector s2" md5 "msg_text m'" t1 t2] rec again(2)
    by simp
  have two: "fst (add_message md5 t2 m' s2) = Returned False \<and>
      rate_limiters (snd (add_message md5 t2 m' s2)) = rate_limiters s2 \<and>
      queue (snd (add_message md5 t2 m' s2)) = queue s2"
  proof (cases rule: add_message_cases [of md5 t2 m' s2])
    case (duplicate dd)
    then show ?thesis by simp
  next
    case (limited s3)
    then show ?thesis using dup by simp
  next
    case (raised s3 e)
    then show ?thesis using dup by simp
  next
    case (queued s3)
    then show ?thesis using dup by simp
  qed
  show ?thesis
    using one two dup rec is_duplicate_first [OF first] later by simp
qed


text \<open>
  A message from a Twitch cheer. With one Twitch message per minute allowed, the service has
  admitted the cheer \<open>a\<close> at time 0.
\<close>

definition example_cheer :: "string \<Rightarrow> tts_message" where
  "example_cheer name =
     (example_message name 2)
       \<lparr>event := Some \<lparr>event_id = str name, event_platform = TWITCH, event_kind = TWITCH_BITS,
                        username = str ''viewer'', detail = TwitchBitsEvent 100 (str name)\<rparr>\<rparr>"

definition example_limited :: queue_service where
  "example_limited = run example_md5 (example_config 2) [(0, Add_message (example_cheer ''a''))]"

text \<open>The state after the cheer \<open>b\<close> was denied at time 1, with rate limiters that have room.\<close>

definition example_denied :: queue_service where
  "example_denied =
     (snd (add_message example_md5 1 (example_cheer ''b'') example_limited))
       \<lparr>rate_limiters := (\<lambda>p. RateLimiter 30)\<rparr>"

theorem rate_limited_message_registers_text_witness:
  "fst (is_duplicate example_md5 1 (msg_text (example_cheer ''b''))
          (duplicate_detector example_limited)) = False \<and>
   event (example_cheer ''b'') \<noteq> None \<and>
   \<not> passes_rate_limit 1 (example_cheer ''b'') example_limited \<and>
   (2::real) - 1 < dd_window (duplicate_detector example_limited) \<and>
   passes_rate_limit 2 (example_cheer ''b'') example_denied \<and>
   fst (add_message example_md5 1 (example_cheer ''b'') example_limited) = Returned False \<and>
   seen (duplicate_detector example_denied) (example_md5 (msg_text (example_cheer ''b''))) = Some 1 \<and>
   fst (add_message example_md5 2 (example_cheer ''b'') example_denied) = Returned False"
proof -
  have first: "fst (is_duplicate example_md5 1 (msg_text (example_cheer ''b''))
      (duplicate_detector example_limited)) = False"
    by (simp add: example_limited_def example_cheer_def queue_eval)
  have ev: "event (example_cheer ''b'') \<noteq> None"
    by (simp add: example_cheer_def)
  have denied: "\<not> passes_rate_limit 1 (example_cheer ''b'') example_limited"
    by (simp add: passes_rate_limit_def example_limited_def example_cheer_def queue_eval)
  have window: "(2::real) - 1 < dd_window (duplicate_detector example_limited)"
    by (simp add: example_limited_def example_cheer_def queue_eval)
  have room: "passes_rate_limit 2 (example_cheer ''b'') example_denied"
    by (simp add: passes_rate_limit_def example_denied_def example_cheer_def is_allowed_def
        RateLimiter_def)
  have dd: "duplicate_detector example_denied =
      duplicate_detector (snd (add_message example_md5 1 (example_cheer ''b'') example_limited))"
    by (simp add: example_denied_def)
  show ?thesis
    using rate_limited_message_registers_text [OF first ev denied refl refl window dd]
      first ev denied window room dd
    by simp
qed

section \<open>Properties of the threshold check\<close>

definition example_thresholds :: threshold_config where
  "example_thresholds =
     \<lparr>TWITCH_BITS_MINIMUM = 100, TWITCH_GIFT_SUBS_MINIMUM = 1, TWITCH_CHANNEL_POINTS_REWARDS = [],
      YOUTUBE_SUPERCHAT_MINIMUM_CENTS = 100\<rparr>"

definition example_superchat :: "real \<Rightarrow> stream_event" where
  "example_superchat amount =
     \<lparr>event_id = str ''e1'', event_platform = YOUTUBE, event_kind = YOUTUBE_SUPERCHAT,
      username = str ''viewer'', detail = YouTubeSuperChatEvent amount (str ''$'') (str ''hi'')\<rparr>"

text \<open>
  What the check computes. A Super Chat or Super Sticker event passes exactly when
  \<open>int(amount * 100)\<close>, the product cut off towards zero and not rounded, is at least
  \<open>min_cents\<close>; for a threshold of at least one cent that is exactly when
  \<open>amount * 100 \<ge> min_cents\<close>. The amount 0.50 with \<open>min_cents\<close> 100 is rejected and the amount
  1.00 passes. (Amounts are real numbers here; see the note at \<open>event_detail\<close>.)
\<close>

theorem superchat_threshold_truncates:
  "(paid_amount ev = Some amount \<longrightarrow>
      (meets_threshold cfg ev \<longleftrightarrow>
         py_int (amount * 100) \<ge> YOUTUBE_SUPERCHAT_MINIMUM_CENTS cfg) \<and>
      (1 \<le> YOUTUBE_SUPERCHAT_MINIMUM_CENTS cfg \<longrightarrow>
         (meets_threshold cfg ev \<longleftrightarrow>
            amount * 100 \<ge> real_of_int (YOUTUBE_SUPERCHAT_MINIMUM_CENTS cfg)))) \<and>
   \<not> meets_threshold example_thresholds (example_superchat 0.50) \<and>
   meets_threshold example_thresholds (example_superchat 1.00)"
proof (intro conjI impI)
  assume a: "paid_amount ev = Some amount"
  show t: "meets_threshold cfg ev \<longleftrightarrow>
      py_int (amount * 100) \<ge> YOUTUBE_SUPERCHAT_MINIMUM_CENTS cfg"
    using a by (auto simp: meets_threshold_def paid_amount_def split: event_detail.splits)
  assume pos: "1 \<le> YOUTUBE_SUPERCHAT_MINIMUM_CENTS cfg"
  have "py_int (amount * 100) \<ge> YOUTUBE_SUPERCHAT_MINIMUM_CENTS cfg \<longleftrightarrow>
      amount * 100 \<ge> real_of_int (YOUTUBE_SUPERCHAT_MINIMUM_CENTS cfg)"
  proof (cases "0 \<le> amount * 100")
    case True
    then show ?thesis by (simp add: py_int_def le_floor_iff)
  next
    case False
    then have c: "\<lceil>amount * 100\<rceil> \<le> 0"
      by (simp add: ceiling_le_iff)
    have l: "\<not> YOUTUBE_SUPERCHAT_MINIMUM_CENTS cfg \<le> \<lceil>amount * 100\<rceil>"
      using c pos by linarith
    have "1 \<le> real_of_int (YOUTUBE_SUPERCHAT_MINIMUM_CENTS cfg)"
      using pos by simp
    then have r: "\<not> real_of_int (YOUTUBE_SUPERCHAT_MINIMUM_CENTS cfg) \<le> amount * 100"
      using False by linarith
    show ?thesis
      using l r False by (simp only: py_int_def if_False)
  qed
  then show "meets_threshold cfg ev \<longleftrightarrow>
      amount * 100 \<ge> real_of_int (YOUTUBE_SUPERCHAT_MINIMUM_CENTS cfg)"
    using t by simp
next
  show "\<not> meets_threshold example_thresholds (example_superchat 0.50)"
    by (simp add: meets_threshold_def example_thresholds_def example_superchat_def py_int_def)
next
  show "meets_threshold example_thresholds (example_superchat 1.00)"
    by (simp add: meets_threshold_def example_thresholds_def example_superchat_def py_int_def)
qed

theorem superchat_threshold_truncates_witness:
  "paid_amount (example_superchat 1.5) = Some 1.5 \<and>
   1 \<le> YOUTUBE_SUPERCHAT_MINIMUM_CENTS example_thresholds \<and>
   meets_threshold example_thresholds (example_superchat 1.5) \<and>
   py_int (1.5 * 100) \<ge> YOUTUBE_SUPERCHAT_MINIMUM_CENTS example_thresholds \<and>
   (1.5::real) * 100 \<ge> real_of_int (YOUTUBE_SUPERCHAT_MINIMUM_CENTS example_thresholds)"
proof -
  have p: "paid_amount (example_superchat 1.5) = Some 1.5"
    by (simp add: paid_amount_def example_superchat_def)
  have m: "1 \<le> YOUTUBE_SUPERCHAT_MINIMUM_CENTS example_thresholds"
    "(1.5::real) * 100 \<ge> real_of_int (YOUTUBE_SUPERCHAT_MINIMUM_CENTS example_thresholds)"
    by (simp_all add: example_thresholds_def)
  show ?thesis
    using superchat_threshold_truncates [of "example_superchat 1.5" "1.5" example_thresholds] p m
    by (simp add: py_int_def)
qed

text \<open>
  Claim C4, evaluated on the program. For an amount of 0.999 with \<open>min_cents\<close> 100 the rule
  of the claim, \<open>round(amount * 100) \<ge> min_cents\<close>, lets the event pass, as 99.9 rounds to
  100 cents; the program cuts 99.9 down to 99 and rejects it.
\<close>

theorem superchat_threshold_not_rounded:
  "paid_amount (example_superchat 0.999) = Some 0.999 \<and>
   spec_threshold 0.999 (YOUTUBE_SUPERCHAT_MINIMUM_CENTS example_thresholds) \<and>
   \<not> meets_threshold example_thresholds (example_superchat 0.999)"
  by (simp add: paid_amount_def spec_threshold_def meets_threshold_def example_thresholds_def
      example_superchat_def py_int_def round_def)

section \<open>Properties of the audio endpoint\<close>













section \<open>Properties of the synthesiser\<close>











section \<open>Idempotence of the text cleaning\<close>















definition trim_end :: "pystr \<Rightarrow> pystr" where
  "trim_end s = rev (dropWhile is_space (rev s))"

lemma trim_end_Nil [simp]: "trim_end [] = []"
  by (simp add: trim_end_def)



lemma is_space_32 [simp]: "is_space 32"
  by (simp add: is_space_def)















lemma is_special_32 [simp]: "\<not> is_special 32"
  by (simp add: is_special_def)




end
